theory Spec2Isabelle
  imports Complex_Main "HOL-Library.Word" "HOL-Library.Monad_Syntax"
begin

section \<open>Data model of heat3D.cpp\<close>

text \<open>
  The program is one \<open>main\<close> function. Its parts are embedded here in source order,
  one definition per block of the source.

  \<^item> \<open>floatT\<close> is \<open>double\<close> in the source; the model computes with exact reals, so the
    theorems below are about which cells are read and written and by which formula,
    not about rounding. The one place where a rounded value decides the control flow
    is the quotient \<open>res / norm\<close> of the convergence test; there the rounding of the
    division is a parameter \<open>fl\<close> of the model.
  \<^item> \<open>unsigned\<close> is a 32-bit word: \<open>chunck[d] - 1\<close> wraps around as it does in C++.
    Loop variables are natural numbers; they stay below the loop bound, which is the
    value of a 32-bit word, so they never wrap.
  \<^item> \<open>std::vector::operator[]\<close> is unchecked. A read or write outside the vector is
    undefined behaviour in C++; in the model it is the value \<open>None\<close>, and everything
    that touches memory returns an option.
  \<^item> \<open>neighbors[d] == MPI_PROC_NULL\<close> is \<open>neighbors d = None\<close>.
\<close>

type_synonym floatT = real
type_synonym unsigned = "32 word"

datatype COORDINATE = X | Y | Z

datatype DIRECTION = LEFT | RIGHT | BOTTOM | TOP | BACK | FRONT

type_synonym cell = "nat \<times> nat \<times> nat"
type_synonym field = "floatT list list list"
type_synonym buffer = "floatT list"

subsection \<open>Memory: unchecked vectors, with out-of-range access made explicit\<close>

definition inside :: "field \<Rightarrow> cell \<Rightarrow> bool" where
  "inside T x = (case x of (i, j, k) \<Rightarrow>
     i < length T \<and> j < length (T ! i) \<and> k < length (T ! i ! j))"

definition elt :: "field \<Rightarrow> cell \<Rightarrow> floatT" where
  "elt T x = (case x of (i, j, k) \<Rightarrow> T ! i ! j ! k)"

definition put :: "field \<Rightarrow> cell \<Rightarrow> floatT \<Rightarrow> field" where
  "put T x v = (case x of (i, j, k) \<Rightarrow> T[i := (T ! i)[j := (T ! i ! j)[k := v]]])"

definition rd :: "field \<Rightarrow> cell \<Rightarrow> floatT option" where
  "rd T x = (if inside T x then Some (elt T x) else None)"

definition wr :: "field \<Rightarrow> cell \<Rightarrow> floatT \<Rightarrow> field option" where
  "wr T x v = (if inside T x then Some (put T x v) else None)"

definition rdb :: "buffer \<Rightarrow> nat \<Rightarrow> floatT option" where
  "rdb b n = (if n < length b then Some (b ! n) else None)"

definition wrb :: "buffer \<Rightarrow> nat \<Rightarrow> floatT \<Rightarrow> buffer option" where
  "wrb b n v = (if n < length b then Some (b[n := v]) else None)"

text \<open>\<open>for (unsigned x = lo; x < hi; ++x) body\<close> is \<open>for_loop [lo..<hi] body\<close>.\<close>

fun for_loop :: "'a list \<Rightarrow> ('a \<Rightarrow> 's \<Rightarrow> 's option) \<Rightarrow> 's \<Rightarrow> 's option" where
  "for_loop [] body s = Some s"
| "for_loop (x # xs) body s = (case body x s of None \<Rightarrow> None | Some s' \<Rightarrow> for_loop xs body s')"

text \<open>A block has the shape of a partition when it is a \<open>chunck[X]\<close> by \<open>chunck[Y]\<close> by
  \<open>chunck[Z]\<close> nest of vectors.\<close>

definition shape :: "(COORDINATE \<Rightarrow> unsigned) \<Rightarrow> field \<Rightarrow> bool" where
  "shape chunck T =
     (length T = unat (chunck X) \<and>
      list_all (\<lambda>plane. length plane = unat (chunck Y) \<and>
                list_all (\<lambda>row. length row = unat (chunck Z)) plane) T)"

subsection \<open>Partition of the domain (lines 271-331)\<close>

datatype abort = Assert COORDINATE

definition divisible :: "(COORDINATE \<Rightarrow> unsigned) \<Rightarrow> (COORDINATE \<Rightarrow> unsigned) \<Rightarrow> COORDINATE \<Rightarrow> bool" where
  "divisible numCells dimension3D d = ((numCells d - 1) mod dimension3D d = 0)"

definition chunck_of :: "(COORDINATE \<Rightarrow> unsigned) \<Rightarrow> (COORDINATE \<Rightarrow> unsigned) \<Rightarrow> COORDINATE \<Rightarrow> unsigned" where
  "chunck_of numCells dimension3D d = (numCells d - 1) div dimension3D d + 1"

text \<open>The three \<open>assert\<close>s of lines 317-322, in order, then the computation of \<open>chunck\<close>.
  \<open>dimension3D\<close> is an \<open>int\<close> array filled by \<open>MPI_Dims_create\<close>; in \<open>%\<close> and \<open>/\<close>
  against an \<open>unsigned\<close> it is converted to \<open>unsigned\<close>.\<close>

definition partition_domain :: "(COORDINATE \<Rightarrow> unsigned) \<Rightarrow> (COORDINATE \<Rightarrow> unsigned) \<Rightarrow> abort + (COORDINATE \<Rightarrow> unsigned)" where
  "partition_domain numCells dimension3D =
     (if \<not> divisible numCells dimension3D X then Inl (Assert X)
      else if \<not> divisible numCells dimension3D Y then Inl (Assert Y)
      else if \<not> divisible numCells dimension3D Z then Inl (Assert Z)
      else Inr (chunck_of numCells dimension3D))"

text \<open>Lines 336-349: \<open>resize\<close> value-initialises every element to \<open>0.0\<close>.\<close>

definition allocate :: "(COORDINATE \<Rightarrow> unsigned) \<Rightarrow> field" where
  "allocate chunck =
     replicate (unat (chunck X)) (replicate (unat (chunck Y)) (replicate (unat (chunck Z)) 0))"

text \<open>Set-up up to the allocation: the asserts come first, so a failed assert
  leaves no field behind.\<close>

definition start_up :: "(COORDINATE \<Rightarrow> unsigned) \<Rightarrow> (COORDINATE \<Rightarrow> unsigned) \<Rightarrow> abort + ((COORDINATE \<Rightarrow> unsigned) \<times> field)" where
  "start_up numCells dimension3D =
     (case partition_domain numCells dimension3D of
        Inl a \<Rightarrow> Inl a
      | Inr chunck \<Rightarrow> Inr (chunck, allocate chunck))"

subsection \<open>Physical parameters (lines 276-308)\<close>

definition spacing_of :: "(COORDINATE \<Rightarrow> unsigned) \<Rightarrow> COORDINATE \<Rightarrow> floatT" where
  "spacing_of numCells d = 1.0 / (real (unat (numCells d)) - 1.0)"

definition CFL :: floatT where
  "CFL = 4 / 10"

definition alpha :: floatT where
  "alpha = 1.0"

definition dt_of :: "(COORDINATE \<Rightarrow> floatT) \<Rightarrow> floatT" where
  "dt_of spacing = CFL * 1.0 / (3 * 2) * (min (spacing X) (min (spacing Y) (spacing Z))) ^ 2 / alpha"

text \<open>\<open>D_of spacing X\<close>, \<open>D_of spacing Y\<close>, \<open>D_of spacing Z\<close> are \<open>Dx\<close>, \<open>Dy\<close>, \<open>Dz\<close>.\<close>

definition D_of :: "(COORDINATE \<Rightarrow> floatT) \<Rightarrow> COORDINATE \<Rightarrow> floatT" where
  "D_of spacing d = dt_of spacing * alpha / (spacing d) ^ 2"

subsection \<open>Initial and boundary conditions (lines 353-401)\<close>

text \<open>\<open>(coordinates3D[Y] * (chunck[Y] - 1) + j) * spacing[Y]\<close>: the integer part is
  computed in \<open>unsigned\<close> arithmetic, then converted to \<open>double\<close>.\<close>

definition ramp :: "(COORDINATE \<Rightarrow> unsigned) \<Rightarrow> (COORDINATE \<Rightarrow> unsigned) \<Rightarrow> (COORDINATE \<Rightarrow> floatT) \<Rightarrow> nat \<Rightarrow> floatT" where
  "ramp coordinates3D chunck spacing j =
     real (unat (coordinates3D Y * (chunck Y - 1) + of_nat j)) * spacing Y"

definition zero_everywhere :: "(COORDINATE \<Rightarrow> unsigned) \<Rightarrow> field \<Rightarrow> field option" where
  "zero_everywhere chunck T =
     for_loop [0..<unat (chunck X)] (\<lambda>i.
       for_loop [0..<unat (chunck Y)] (\<lambda>j.
         for_loop [0..<unat (chunck Z)] (\<lambda>k T. wr T (i, j, k) 0.0))) T"

definition bc_top :: "(DIRECTION \<Rightarrow> nat option) \<Rightarrow> (COORDINATE \<Rightarrow> unsigned) \<Rightarrow> field \<Rightarrow> field option" where
  "bc_top neighbors chunck T =
     (if neighbors TOP = None then
        for_loop [0..<unat (chunck X)] (\<lambda>i.
          for_loop [0..<unat (chunck Z)] (\<lambda>k T. wr T (i, unat (chunck Y - 1), k) 1.0)) T
      else Some T)"

definition bc_left :: "(DIRECTION \<Rightarrow> nat option) \<Rightarrow> (COORDINATE \<Rightarrow> unsigned) \<Rightarrow> (nat \<Rightarrow> floatT) \<Rightarrow> field \<Rightarrow> field option" where
  "bc_left neighbors chunck rmp T =
     (if neighbors LEFT = None then
        for_loop [0..<unat (chunck Y)] (\<lambda>j.
          for_loop [0..<unat (chunck Z)] (\<lambda>k T. wr T (0, j, k) (rmp j))) T
      else Some T)"

definition bc_right :: "(DIRECTION \<Rightarrow> nat option) \<Rightarrow> (COORDINATE \<Rightarrow> unsigned) \<Rightarrow> (nat \<Rightarrow> floatT) \<Rightarrow> field \<Rightarrow> field option" where
  "bc_right neighbors chunck rmp T =
     (if neighbors RIGHT = None then
        for_loop [0..<unat (chunck Y)] (\<lambda>j.
          for_loop [0..<unat (chunck Z)] (\<lambda>k T. wr T (unat (chunck X - 1), j, k) (rmp j))) T
      else Some T)"

definition bc_back :: "(DIRECTION \<Rightarrow> nat option) \<Rightarrow> (COORDINATE \<Rightarrow> unsigned) \<Rightarrow> (nat \<Rightarrow> floatT) \<Rightarrow> field \<Rightarrow> field option" where
  "bc_back neighbors chunck rmp T =
     (if neighbors BACK = None then
        for_loop [0..<unat (chunck X)] (\<lambda>i.
          for_loop [0..<unat (chunck Y)] (\<lambda>j T. wr T (i, j, 0) (rmp j))) T
      else Some T)"

definition bc_front :: "(DIRECTION \<Rightarrow> nat option) \<Rightarrow> (COORDINATE \<Rightarrow> unsigned) \<Rightarrow> (nat \<Rightarrow> floatT) \<Rightarrow> field \<Rightarrow> field option" where
  "bc_front neighbors chunck rmp T =
     (if neighbors FRONT = None then
        for_loop [0..<unat (chunck X)] (\<lambda>i.
          for_loop [0..<unat (chunck Y)] (\<lambda>j T. wr T (i, j, unat (chunck Z - 1)) (rmp j))) T
      else Some T)"

definition initial_conditions :: "(DIRECTION \<Rightarrow> nat option) \<Rightarrow> (COORDINATE \<Rightarrow> unsigned) \<Rightarrow> (COORDINATE \<Rightarrow> unsigned) \<Rightarrow> (COORDINATE \<Rightarrow> floatT) \<Rightarrow> field \<Rightarrow> field option" where
  "initial_conditions neighbors coordinates3D chunck spacing T = do {
     T \<leftarrow> zero_everywhere chunck T;
     T \<leftarrow> bc_top neighbors chunck T;
     T \<leftarrow> bc_left neighbors chunck (ramp coordinates3D chunck spacing) T;
     T \<leftarrow> bc_right neighbors chunck (ramp coordinates3D chunck spacing) T;
     T \<leftarrow> bc_back neighbors chunck (ramp coordinates3D chunck spacing) T;
     bc_front neighbors chunck (ramp coordinates3D chunck spacing) T
   }"

subsection \<open>Send and receive buffers (lines 410-478)\<close>

text \<open>The two axes across a face, in the (outer, inner) order of the loops.\<close>

fun transverse :: "DIRECTION \<Rightarrow> COORDINATE \<times> COORDINATE" where
  "transverse LEFT = (Y, Z)"
| "transverse RIGHT = (Y, Z)"
| "transverse BOTTOM = (X, Z)"
| "transverse TOP = (X, Z)"
| "transverse BACK = (X, Y)"
| "transverse FRONT = (X, Y)"

definition buffer_size :: "(DIRECTION \<Rightarrow> nat option) \<Rightarrow> (COORDINATE \<Rightarrow> unsigned) \<Rightarrow> DIRECTION \<Rightarrow> nat" where
  "buffer_size neighbors chunck d =
     (if neighbors d \<noteq> None
      then unat ((chunck (fst (transverse d)) - 1) * (chunck (snd (transverse d)) - 1))
      else 1)"

definition allocate_buffers :: "(DIRECTION \<Rightarrow> nat option) \<Rightarrow> (COORDINATE \<Rightarrow> unsigned) \<Rightarrow> DIRECTION \<Rightarrow> buffer" where
  "allocate_buffers neighbors chunck d = replicate (buffer_size neighbors chunck d) 0"

subsection \<open>Time loop: copy and packing (lines 502-566)\<close>

definition copy_previous :: "(COORDINATE \<Rightarrow> unsigned) \<Rightarrow> field \<Rightarrow> field \<Rightarrow> field option" where
  "copy_previous chunck T T0 =
     for_loop [0..<unat (chunck X)] (\<lambda>i.
       for_loop [0..<unat (chunck Y)] (\<lambda>j.
         for_loop [0..<unat (chunck Z)] (\<lambda>k T0. do { v \<leftarrow> rd T (i, j, k); wr T0 (i, j, k) v }))) T0"

text \<open>\<open>buffer[counter++] = T0[x]\<close>.\<close>

definition pack_cell :: "field \<Rightarrow> cell \<Rightarrow> buffer \<times> nat \<Rightarrow> (buffer \<times> nat) option" where
  "pack_cell T0 x s = (case s of (b, counter) \<Rightarrow>
     do { v \<leftarrow> rd T0 x; b' \<leftarrow> wrb b counter v; Some (b', counter + 1) })"

text \<open>The six packing blocks. Each starts with \<open>counter = 0\<close> and runs only when the
  neighbour exists; the buffer of a direction without neighbour is left as it is.\<close>

fun pack :: "(DIRECTION \<Rightarrow> nat option) \<Rightarrow> (COORDINATE \<Rightarrow> unsigned) \<Rightarrow> field \<Rightarrow> DIRECTION \<Rightarrow> buffer \<Rightarrow> (buffer \<times> nat) option" where
  "pack neighbors chunck T0 LEFT b =
     (if neighbors LEFT \<noteq> None then
        for_loop [1..<unat (chunck Y - 1)] (\<lambda>j.
          for_loop [1..<unat (chunck Z - 1)] (\<lambda>k. pack_cell T0 (1, j, k))) (b, 0)
      else Some (b, 0))"
| "pack neighbors chunck T0 RIGHT b =
     (if neighbors RIGHT \<noteq> None then
        for_loop [1..<unat (chunck Y - 1)] (\<lambda>j.
          for_loop [1..<unat (chunck Z - 1)] (\<lambda>k. pack_cell T0 (unat (chunck X - 2), j, k))) (b, 0)
      else Some (b, 0))"
| "pack neighbors chunck T0 BOTTOM b =
     (if neighbors BOTTOM \<noteq> None then
        for_loop [1..<unat (chunck X - 1)] (\<lambda>i.
          for_loop [1..<unat (chunck Z - 1)] (\<lambda>k. pack_cell T0 (i, 1, k))) (b, 0)
      else Some (b, 0))"
| "pack neighbors chunck T0 TOP b =
     (if neighbors TOP \<noteq> None then
        for_loop [1..<unat (chunck X - 1)] (\<lambda>i.
          for_loop [1..<unat (chunck Z - 1)] (\<lambda>k. pack_cell T0 (i, unat (chunck Y - 2), k))) (b, 0)
      else Some (b, 0))"
| "pack neighbors chunck T0 BACK b =
     (if neighbors BACK \<noteq> None then
        for_loop [1..<unat (chunck X - 1)] (\<lambda>i.
          for_loop [1..<unat (chunck Y - 1)] (\<lambda>j. pack_cell T0 (i, j, 1))) (b, 0)
      else Some (b, 0))"
| "pack neighbors chunck T0 FRONT b =
     (if neighbors FRONT \<noteq> None then
        for_loop [1..<unat (chunck X - 1)] (\<lambda>i.
          for_loop [1..<unat (chunck Y - 1)] (\<lambda>j. pack_cell T0 (i, j, unat (chunck Z - 2)))) (b, 0)
      else Some (b, 0))"

text \<open>All six send buffers after packing; \<open>None\<close> when one of the blocks leaves its
  vectors.\<close>

definition pack_all :: "(DIRECTION \<Rightarrow> nat option) \<Rightarrow> (COORDINATE \<Rightarrow> unsigned) \<Rightarrow> field \<Rightarrow> (DIRECTION \<Rightarrow> buffer) \<Rightarrow> (DIRECTION \<Rightarrow> buffer) option" where
  "pack_all neighbors chunck T0 sendBuffer =
     (if list_all (\<lambda>d. pack neighbors chunck T0 d (sendBuffer d) \<noteq> None) [LEFT, RIGHT, BOTTOM, TOP, BACK, FRONT]
      then Some (\<lambda>d. fst (the (pack neighbors chunck T0 d (sendBuffer d))))
      else None)"

subsection \<open>Time loop: faces with a neighbour (lines 656-749)\<close>

definition stencil :: "(COORDINATE \<Rightarrow> floatT) \<Rightarrow> floatT \<Rightarrow> floatT \<Rightarrow> floatT \<Rightarrow> floatT \<Rightarrow> floatT \<Rightarrow> floatT \<Rightarrow> floatT \<Rightarrow> floatT" where
  "stencil D t xp xm yp ym zp zm =
     t + D X * (xp - 2.0 * t + xm) + D Y * (yp - 2.0 * t + ym) + D Z * (zp - 2.0 * t + zm)"

text \<open>One assignment of a face block. The state is \<open>T\<close> and the local \<open>counter\<close>; the
  operand that lies in the neighbour's block is \<open>THalo[counter++]\<close>, the others come
  from \<open>T0\<close>.\<close>

definition face_left :: "(COORDINATE \<Rightarrow> floatT) \<Rightarrow> field \<Rightarrow> buffer \<Rightarrow> nat \<Rightarrow> nat \<Rightarrow> nat \<Rightarrow> field \<times> nat \<Rightarrow> (field \<times> nat) option" where
  "face_left D T0 THalo i j k s = (case s of (T, counter) \<Rightarrow> do {
     t \<leftarrow> rd T0 (i, j, k);
     xp \<leftarrow> rd T0 (i + 1, j, k); xm \<leftarrow> rdb THalo counter;
     yp \<leftarrow> rd T0 (i, j + 1, k); ym \<leftarrow> rd T0 (i, j - 1, k);
     zp \<leftarrow> rd T0 (i, j, k + 1); zm \<leftarrow> rd T0 (i, j, k - 1);
     T' \<leftarrow> wr T (i, j, k) (stencil D t xp xm yp ym zp zm);
     Some (T', counter + 1) })"

definition face_right :: "(COORDINATE \<Rightarrow> floatT) \<Rightarrow> field \<Rightarrow> buffer \<Rightarrow> unsigned \<Rightarrow> nat \<Rightarrow> nat \<Rightarrow> field \<times> nat \<Rightarrow> (field \<times> nat) option" where
  "face_right D T0 THalo i j k s = (case s of (T, counter) \<Rightarrow> do {
     t \<leftarrow> rd T0 (unat i, j, k);
     xp \<leftarrow> rdb THalo counter; xm \<leftarrow> rd T0 (unat (i - 1), j, k);
     yp \<leftarrow> rd T0 (unat i, j + 1, k); ym \<leftarrow> rd T0 (unat i, j - 1, k);
     zp \<leftarrow> rd T0 (unat i, j, k + 1); zm \<leftarrow> rd T0 (unat i, j, k - 1);
     T' \<leftarrow> wr T (unat i, j, k) (stencil D t xp xm yp ym zp zm);
     Some (T', counter + 1) })"

definition face_bottom :: "(COORDINATE \<Rightarrow> floatT) \<Rightarrow> field \<Rightarrow> buffer \<Rightarrow> nat \<Rightarrow> nat \<Rightarrow> nat \<Rightarrow> field \<times> nat \<Rightarrow> (field \<times> nat) option" where
  "face_bottom D T0 THalo i j k s = (case s of (T, counter) \<Rightarrow> do {
     t \<leftarrow> rd T0 (i, j, k);
     xp \<leftarrow> rd T0 (i + 1, j, k); xm \<leftarrow> rd T0 (i - 1, j, k);
     yp \<leftarrow> rd T0 (i, j + 1, k); ym \<leftarrow> rdb THalo counter;
     zp \<leftarrow> rd T0 (i, j, k + 1); zm \<leftarrow> rd T0 (i, j, k - 1);
     T' \<leftarrow> wr T (i, j, k) (stencil D t xp xm yp ym zp zm);
     Some (T', counter + 1) })"

definition face_top :: "(COORDINATE \<Rightarrow> floatT) \<Rightarrow> field \<Rightarrow> buffer \<Rightarrow> nat \<Rightarrow> unsigned \<Rightarrow> nat \<Rightarrow> field \<times> nat \<Rightarrow> (field \<times> nat) option" where
  "face_top D T0 THalo i j k s = (case s of (T, counter) \<Rightarrow> do {
     t \<leftarrow> rd T0 (i, unat j, k);
     xp \<leftarrow> rd T0 (i + 1, unat j, k); xm \<leftarrow> rd T0 (i - 1, unat j, k);
     yp \<leftarrow> rdb THalo counter; ym \<leftarrow> rd T0 (i, unat (j - 1), k);
     zp \<leftarrow> rd T0 (i, unat j, k + 1); zm \<leftarrow> rd T0 (i, unat j, k - 1);
     T' \<leftarrow> wr T (i, unat j, k) (stencil D t xp xm yp ym zp zm);
     Some (T', counter + 1) })"

definition face_back :: "(COORDINATE \<Rightarrow> floatT) \<Rightarrow> field \<Rightarrow> buffer \<Rightarrow> nat \<Rightarrow> nat \<Rightarrow> nat \<Rightarrow> field \<times> nat \<Rightarrow> (field \<times> nat) option" where
  "face_back D T0 THalo i j k s = (case s of (T, counter) \<Rightarrow> do {
     t \<leftarrow> rd T0 (i, j, k);
     xp \<leftarrow> rd T0 (i + 1, j, k); xm \<leftarrow> rd T0 (i - 1, j, k);
     yp \<leftarrow> rd T0 (i, j + 1, k); ym \<leftarrow> rd T0 (i, j - 1, k);
     zp \<leftarrow> rd T0 (i, j, k + 1); zm \<leftarrow> rdb THalo counter;
     T' \<leftarrow> wr T (i, j, k) (stencil D t xp xm yp ym zp zm);
     Some (T', counter + 1) })"

definition face_front :: "(COORDINATE \<Rightarrow> floatT) \<Rightarrow> field \<Rightarrow> buffer \<Rightarrow> nat \<Rightarrow> nat \<Rightarrow> unsigned \<Rightarrow> field \<times> nat \<Rightarrow> (field \<times> nat) option" where
  "face_front D T0 THalo i j k s = (case s of (T, counter) \<Rightarrow> do {
     t \<leftarrow> rd T0 (i, j, unat k);
     xp \<leftarrow> rd T0 (i + 1, j, unat k); xm \<leftarrow> rd T0 (i - 1, j, unat k);
     yp \<leftarrow> rd T0 (i, j + 1, unat k); ym \<leftarrow> rd T0 (i, j - 1, unat k);
     zp \<leftarrow> rdb THalo counter; zm \<leftarrow> rd T0 (i, j, unat (k - 1));
     T' \<leftarrow> wr T (i, j, unat k) (stencil D t xp xm yp ym zp zm);
     Some (T', counter + 1) })"

text \<open>A block guarded by \<open>if (cond) { ... }\<close>.\<close>

definition guarded :: "bool \<Rightarrow> (field \<Rightarrow> field option) \<Rightarrow> field \<Rightarrow> field option" where
  "guarded cond block T = (if cond then block T else Some T)"

text \<open>Dropping the local counter at the end of a face block.\<close>

definition face_block :: "(field \<times> nat \<Rightarrow> (field \<times> nat) option) \<Rightarrow> field \<Rightarrow> field option" where
  "face_block loops T = (case loops (T, 0) of None \<Rightarrow> None | Some (T', counter) \<Rightarrow> Some T')"

definition face_steps :: "(DIRECTION \<Rightarrow> nat option) \<Rightarrow> (COORDINATE \<Rightarrow> unsigned) \<Rightarrow> (COORDINATE \<Rightarrow> floatT) \<Rightarrow> field \<Rightarrow> (DIRECTION \<Rightarrow> buffer) \<Rightarrow> (field \<Rightarrow> field option) list" where
  "face_steps neighbors chunck D T0 receiveBuffer =
     [guarded (neighbors LEFT \<noteq> None) (face_block
        (for_loop [1..<unat (chunck Y - 1)] (\<lambda>j.
           for_loop [1..<unat (chunck Z - 1)] (\<lambda>k. face_left D T0 (receiveBuffer LEFT) 0 j k)))),
      guarded (neighbors RIGHT \<noteq> None) (face_block
        (for_loop [1..<unat (chunck Y - 1)] (\<lambda>j.
           for_loop [1..<unat (chunck Z - 1)] (\<lambda>k. face_right D T0 (receiveBuffer RIGHT) (chunck X - 1) j k)))),
      guarded (neighbors BOTTOM \<noteq> None) (face_block
        (for_loop [1..<unat (chunck X - 1)] (\<lambda>i.
           for_loop [1..<unat (chunck Z - 1)] (\<lambda>k. face_bottom D T0 (receiveBuffer BOTTOM) i 0 k)))),
      guarded (neighbors TOP \<noteq> None) (face_block
        (for_loop [1..<unat (chunck X - 1)] (\<lambda>i.
           for_loop [1..<unat (chunck Z - 1)] (\<lambda>k. face_top D T0 (receiveBuffer TOP) i (chunck Y - 1) k)))),
      guarded (neighbors BACK \<noteq> None) (face_block
        (for_loop [1..<unat (chunck X - 1)] (\<lambda>i.
           for_loop [1..<unat (chunck Y - 1)] (\<lambda>j. face_back D T0 (receiveBuffer BACK) i j 0)))),
      guarded (neighbors FRONT \<noteq> None) (face_block
        (for_loop [1..<unat (chunck X - 1)] (\<lambda>i.
           for_loop [1..<unat (chunck Y - 1)] (\<lambda>j. face_front D T0 (receiveBuffer FRONT) i j (chunck Z - 1)))))]"

subsection \<open>Time loop: edges and corners between two or three neighbours (lines 757-907)\<close>

text \<open>\<open>T[x] = 2.0 * T[a] - T[b]\<close> and \<open>T[x] = 1.0 / 3.0 * (T[a] + T[b] + T[c])\<close>, reading
  the current field.\<close>

definition extrapolate :: "cell \<Rightarrow> cell \<Rightarrow> cell \<Rightarrow> field \<Rightarrow> field option" where
  "extrapolate x a b T = do { u \<leftarrow> rd T a; v \<leftarrow> rd T b; wr T x (2.0 * u - v) }"

definition average :: "cell \<Rightarrow> cell \<Rightarrow> cell \<Rightarrow> cell \<Rightarrow> field \<Rightarrow> field option" where
  "average x a b c T = do { u \<leftarrow> rd T a; v \<leftarrow> rd T b; w \<leftarrow> rd T c; wr T x (1.0 / 3.0 * (u + v + w)) }"

text \<open>The twelve edge blocks in source order. \<open>i\<close>, \<open>j\<close>, \<open>k\<close> are the locals of each
  block; where the source sets one to \<open>chunck[d] - 1\<close> it is an \<open>unsigned\<close> and the
  steps \<open>i - 1\<close>, \<open>i - 2\<close> are taken in \<open>unsigned\<close> arithmetic.\<close>

definition edge_steps :: "(DIRECTION \<Rightarrow> nat option) \<Rightarrow> (COORDINATE \<Rightarrow> unsigned) \<Rightarrow> (field \<Rightarrow> field option) list" where
  "edge_steps neighbors chunck =
     [guarded (neighbors LEFT \<noteq> None \<and> neighbors BOTTOM \<noteq> None) (let i = 0; j = 0 in
        for_loop [1..<unat (chunck Z - 1)] (\<lambda>k. extrapolate (i, j, k) (i + 1, j, k) (i + 2, j, k))),
      guarded (neighbors LEFT \<noteq> None \<and> neighbors TOP \<noteq> None) (let i = 0; j = chunck Y - 1 in
        for_loop [1..<unat (chunck Z - 1)] (\<lambda>k. extrapolate (i, unat j, k) (i + 1, unat j, k) (i + 2, unat j, k))),
      guarded (neighbors LEFT \<noteq> None \<and> neighbors BACK \<noteq> None) (let i = 0; k = 0 in
        for_loop [1..<unat (chunck Y - 1)] (\<lambda>j. extrapolate (i, j, k) (i + 1, j, k) (i + 2, j, k))),
      guarded (neighbors LEFT \<noteq> None \<and> neighbors FRONT \<noteq> None) (let i = 0; k = chunck Z - 1 in
        for_loop [1..<unat (chunck Y - 1)] (\<lambda>j. extrapolate (i, j, unat k) (i + 1, j, unat k) (i + 2, j, unat k))),
      guarded (neighbors RIGHT \<noteq> None \<and> neighbors BOTTOM \<noteq> None) (let i = chunck X - 1; j = 0 in
        for_loop [1..<unat (chunck Z - 1)] (\<lambda>k. extrapolate (unat i, j, k) (unat (i - 1), j, k) (unat (i - 2), j, k))),
      guarded (neighbors RIGHT \<noteq> None \<and> neighbors TOP \<noteq> None) (let i = chunck X - 1; j = chunck Y - 1 in
        for_loop [1..<unat (chunck Z - 1)] (\<lambda>k. extrapolate (unat i, unat j, k) (unat (i - 1), unat j, k) (unat (i - 2), unat j, k))),
      guarded (neighbors RIGHT \<noteq> None \<and> neighbors BACK \<noteq> None) (let i = chunck X - 1; k = 0 in
        for_loop [1..<unat (chunck Y - 1)] (\<lambda>j. extrapolate (unat i, j, k) (unat (i - 1), j, k) (unat (i - 2), j, k))),
      guarded (neighbors RIGHT \<noteq> None \<and> neighbors FRONT \<noteq> None) (let i = chunck X - 1; k = chunck Z - 1 in
        for_loop [1..<unat (chunck Y - 1)] (\<lambda>j. extrapolate (unat i, j, unat k) (unat (i - 1), j, unat k) (unat (i - 2), j, unat k))),
      guarded (neighbors BACK \<noteq> None \<and> neighbors BOTTOM \<noteq> None) (let j = 0; k = 0 in
        for_loop [1..<unat (chunck X - 1)] (\<lambda>i. extrapolate (i, j, k) (i, j, k + 1) (i, j, k + 2))),
      guarded (neighbors BACK \<noteq> None \<and> neighbors TOP \<noteq> None) (let j = chunck Y - 1; k = 0 in
        for_loop [1..<unat (chunck X - 1)] (\<lambda>i. extrapolate (i, unat j, k) (i, unat j, k + 1) (i, unat j, k + 2))),
      guarded (neighbors FRONT \<noteq> None \<and> neighbors BOTTOM \<noteq> None) (let j = 0; k = chunck Z - 1 in
        for_loop [1..<unat (chunck X - 1)] (\<lambda>i. extrapolate (i, j, unat k) (i, j, unat (k - 1)) (i, j, unat (k - 2)))),
      guarded (neighbors FRONT \<noteq> None \<and> neighbors TOP \<noteq> None) (let j = chunck Y - 1; k = chunck Z - 1 in
        for_loop [1..<unat (chunck X - 1)] (\<lambda>i. extrapolate (i, unat j, unat k) (i, unat j, unat (k - 1)) (i, unat j, unat (k - 2))))]"

text \<open>The eight corner blocks in source order.\<close>

definition corner_steps :: "(DIRECTION \<Rightarrow> nat option) \<Rightarrow> (COORDINATE \<Rightarrow> unsigned) \<Rightarrow> (field \<Rightarrow> field option) list" where
  "corner_steps neighbors chunck =
     [guarded (neighbors LEFT \<noteq> None \<and> neighbors BOTTOM \<noteq> None \<and> neighbors BACK \<noteq> None)
        (let i = 0; j = 0; k = 0 in
         average (i, j, k) (i + 1, j, k) (i, j + 1, k) (i, j, k + 1)),
      guarded (neighbors LEFT \<noteq> None \<and> neighbors BOTTOM \<noteq> None \<and> neighbors FRONT \<noteq> None)
        (let i = 0; j = 0; k = chunck Z - 1 in
         average (i, j, unat k) (i + 1, j, unat k) (i, j + 1, unat k) (i, j, unat (k - 1))),
      guarded (neighbors LEFT \<noteq> None \<and> neighbors TOP \<noteq> None \<and> neighbors BACK \<noteq> None)
        (let i = 0; j = chunck Y - 1; k = 0 in
         average (i, unat j, k) (i + 1, unat j, k) (i, unat (j - 1), k) (i, unat j, k + 1)),
      guarded (neighbors LEFT \<noteq> None \<and> neighbors TOP \<noteq> None \<and> neighbors FRONT \<noteq> None)
        (let i = 0; j = chunck Y - 1; k = chunck Z - 1 in
         average (i, unat j, unat k) (i + 1, unat j, unat k) (i, unat (j - 1), unat k) (i, unat j, unat (k - 1))),
      guarded (neighbors RIGHT \<noteq> None \<and> neighbors BOTTOM \<noteq> None \<and> neighbors BACK \<noteq> None)
        (let i = chunck X - 1; j = 0; k = 0 in
         average (unat i, j, k) (unat (i - 1), j, k) (unat i, j + 1, k) (unat i, j, k + 1)),
      guarded (neighbors RIGHT \<noteq> None \<and> neighbors BOTTOM \<noteq> None \<and> neighbors FRONT \<noteq> None)
        (let i = chunck X - 1; j = 0; k = chunck Z - 1 in
         average (unat i, j, unat k) (unat (i - 1), j, unat k) (unat i, j + 1, unat k) (unat i, j, unat (k - 1))),
      guarded (neighbors RIGHT \<noteq> None \<and> neighbors TOP \<noteq> None \<and> neighbors BACK \<noteq> None)
        (let i = chunck X - 1; j = chunck Y - 1; k = 0 in
         average (unat i, unat j, k) (unat (i - 1), unat j, k) (unat i, unat (j - 1), k) (unat i, unat j, k + 1)),
      guarded (neighbors RIGHT \<noteq> None \<and> neighbors TOP \<noteq> None \<and> neighbors FRONT \<noteq> None)
        (let i = chunck X - 1; j = chunck Y - 1; k = chunck Z - 1 in
         average (unat i, unat j, unat k) (unat (i - 1), unat j, unat k) (unat i, unat (j - 1), unat k) (unat i, unat j, unat (k - 1)))]"

text \<open>Running a sequence of blocks one after the other.\<close>

definition run_steps :: "(field \<Rightarrow> field option) list \<Rightarrow> field \<Rightarrow> field option" where
  "run_steps steps T = for_loop steps (\<lambda>step. step) T"

subsection \<open>Time loop: residual (lines 915-920)\<close>

text \<open>\<open>std::numeric_limits<double>::min()\<close>, the smallest positive normalised double.\<close>

definition DBL_MIN :: floatT where
  "DBL_MIN = 1 / 2 ^ 1022"

definition residual :: "(COORDINATE \<Rightarrow> unsigned) \<Rightarrow> field \<Rightarrow> field \<Rightarrow> floatT option" where
  "residual chunck T T0 =
     for_loop [1..<unat (chunck X - 1)] (\<lambda>i.
       for_loop [1..<unat (chunck Y - 1)] (\<lambda>j.
         for_loop [1..<unat (chunck Z - 1)] (\<lambda>k res. do {
           a \<leftarrow> rd T (i, j, k); b \<leftarrow> rd T0 (i, j, k);
           Some (if \<bar>a - b\<bar> > res then \<bar>a - b\<bar> else res) }))) DBL_MIN"

subsection \<open>One pass of the time loop over the block of one process (lines 499-920)\<close>

record block =
  fieldT :: field
  fieldT0 :: field
  sendBuffers :: "DIRECTION \<Rightarrow> buffer"

text \<open>All the blocks that write \<open>T\<close> in one pass, in source order: the six face blocks,
  the twelve edge blocks, the eight corner blocks. Before the face blocks the source has
  only comments where the internal domain would be computed (the region marked GPU
  BEGIN), so nothing else writes \<open>T\<close>.\<close>

definition boundary_steps :: "(DIRECTION \<Rightarrow> nat option) \<Rightarrow> (COORDINATE \<Rightarrow> unsigned) \<Rightarrow> (COORDINATE \<Rightarrow> floatT) \<Rightarrow> field \<Rightarrow> (DIRECTION \<Rightarrow> buffer) \<Rightarrow> (field \<Rightarrow> field option) list" where
  "boundary_steps neighbors chunck D T0 receiveBuffer =
     face_steps neighbors chunck D T0 receiveBuffer @ edge_steps neighbors chunck @ corner_steps neighbors chunck"

text \<open>\<open>receiveBuffer\<close> is what \<open>MPI_Recv\<close> has delivered in this pass.\<close>

definition iteration :: "(DIRECTION \<Rightarrow> nat option) \<Rightarrow> (COORDINATE \<Rightarrow> unsigned) \<Rightarrow> (COORDINATE \<Rightarrow> floatT) \<Rightarrow> (DIRECTION \<Rightarrow> buffer) \<Rightarrow> block \<Rightarrow> (block \<times> floatT) option" where
  "iteration neighbors chunck D receiveBuffer s = do {
     T0' \<leftarrow> copy_previous chunck (fieldT s) (fieldT0 s);
     send' \<leftarrow> pack_all neighbors chunck T0' (sendBuffers s);
     T' \<leftarrow> run_steps (boundary_steps neighbors chunck D T0' receiveBuffer) (fieldT s);
     res \<leftarrow> residual chunck T' T0';
     Some (\<lparr>fieldT = T', fieldT0 = T0', sendBuffers = send'\<rparr>, res) }"

text \<open>\<open>n\<close> passes, the \<open>t\<close>-th one receiving \<open>receiveBuffer t\<close>.\<close>

fun iterations :: "(DIRECTION \<Rightarrow> nat option) \<Rightarrow> (COORDINATE \<Rightarrow> unsigned) \<Rightarrow> (COORDINATE \<Rightarrow> floatT) \<Rightarrow> (nat \<Rightarrow> DIRECTION \<Rightarrow> buffer) \<Rightarrow> nat \<Rightarrow> block \<Rightarrow> block option" where
  "iterations neighbors chunck D receiveBuffer 0 s = Some s"
| "iterations neighbors chunck D receiveBuffer (Suc n) s =
     (case iterations neighbors chunck D receiveBuffer n s of
        None \<Rightarrow> None
      | Some s' \<Rightarrow> (case iteration neighbors chunck D (receiveBuffer n) s' of
                     None \<Rightarrow> None
                   | Some (s'', res) \<Rightarrow> Some s''))"

subsection \<open>State of one process before the time loop (lines 336-478)\<close>

text \<open>\<open>T\<close> and \<open>T0\<close> are allocated with the size of the block, \<open>T\<close> receives the initial
  and boundary conditions, the send buffers are allocated.\<close>

definition start_block :: "(DIRECTION \<Rightarrow> nat option) \<Rightarrow> (COORDINATE \<Rightarrow> unsigned) \<Rightarrow> (COORDINATE \<Rightarrow> unsigned) \<Rightarrow> (COORDINATE \<Rightarrow> floatT) \<Rightarrow> block option" where
  "start_block neighbors coordinates3D chunck spacing =
     (case initial_conditions neighbors coordinates3D chunck spacing (allocate chunck) of
        None \<Rightarrow> None
      | Some T \<Rightarrow> Some \<lparr>fieldT = T, fieldT0 = allocate chunck, sendBuffers = allocate_buffers neighbors chunck\<rparr>)"

subsection \<open>Convergence test and the two reductions (lines 261-267, 926-969)\<close>

text \<open>The scalars every process keeps. \<open>breakCondition\<close> and \<open>globalBreakCondition\<close>
  are \<open>int\<close>s holding \<open>false\<close> (0) or \<open>true\<close> (1).\<close>

record convergence =
  norm_factor :: floatT
  globalNorm :: floatT
  breakCondition :: int
  globalBreakCondition :: int

definition initial_convergence :: convergence where
  "initial_convergence = \<lparr>norm_factor = 1.0, globalNorm = 1.0, breakCondition = 0, globalBreakCondition = 0\<rparr>"

text \<open>Lines 926-928.\<close>

definition store_norm :: "nat \<Rightarrow> floatT \<Rightarrow> convergence \<Rightarrow> convergence" where
  "store_norm time res st =
     (if time = 0 then (if res \<noteq> 0.0 then st\<lparr>norm_factor := res\<rparr> else st) else st)"







subsection \<open>The time loop of all processes (lines 497-970)\<close>




subsection \<open>Closed forms used in the statements\<close>

text \<open>The cells strictly inside the block, in the order of the residual loops.\<close>

definition interior_cells :: "(COORDINATE \<Rightarrow> unsigned) \<Rightarrow> cell list" where
  "interior_cells chunck =
     List.product [1..<unat (chunck X) - 1] (List.product [1..<unat (chunck Y) - 1] [1..<unat (chunck Z) - 1])"

text \<open>What the residual loops compute over a list of cells, started at \<open>r\<close>.\<close>

definition max_change :: "field \<Rightarrow> field \<Rightarrow> cell list \<Rightarrow> floatT \<Rightarrow> floatT" where
  "max_change T T0 xs r = fold (\<lambda>x res. if \<bar>elt T x - elt T0 x\<bar> > res then \<bar>elt T x - elt T0 x\<bar> else res) xs r"

text \<open>The cell of the single layer next to face \<open>d\<close> that has the transverse indices
  \<open>(a, b)\<close>, \<open>a\<close> on the outer and \<open>b\<close> on the inner loop axis.\<close>

fun layer_cell :: "(COORDINATE \<Rightarrow> unsigned) \<Rightarrow> DIRECTION \<Rightarrow> nat \<times> nat \<Rightarrow> cell" where
  "layer_cell chunck LEFT (a, b) = (1, a, b)"
| "layer_cell chunck RIGHT (a, b) = (unat (chunck X) - 2, a, b)"
| "layer_cell chunck BOTTOM (a, b) = (a, 1, b)"
| "layer_cell chunck TOP (a, b) = (a, unat (chunck Y) - 2, b)"
| "layer_cell chunck BACK (a, b) = (a, b, 1)"
| "layer_cell chunck FRONT (a, b) = (a, b, unat (chunck Z) - 2)"

text \<open>The values of \<open>T0\<close> on that layer at the transverse indices from 1 to
  \<open>chunck - 2\<close>, both included, in (outer, inner) order.\<close>

definition packed :: "(COORDINATE \<Rightarrow> unsigned) \<Rightarrow> field \<Rightarrow> DIRECTION \<Rightarrow> floatT list" where
  "packed chunck T0 d =
     map (\<lambda>p. elt T0 (layer_cell chunck d p))
       (List.product [1..<unat (chunck (fst (transverse d))) - 1] [1..<unat (chunck (snd (transverse d))) - 1])"

text \<open>The same with the transverse indices strictly between 1 and \<open>chunck - 2\<close>.\<close>

definition strictly_between :: "nat \<Rightarrow> nat \<Rightarrow> nat list" where
  "strictly_between lo hi = [lo + 1..<hi]"

definition packed_as_claimed :: "(COORDINATE \<Rightarrow> unsigned) \<Rightarrow> field \<Rightarrow> DIRECTION \<Rightarrow> floatT list" where
  "packed_as_claimed chunck T0 d =
     map (\<lambda>p. elt T0 (layer_cell chunck d p))
       (List.product (strictly_between 1 (unat (chunck (fst (transverse d))) - 2))
                     (strictly_between 1 (unat (chunck (snd (transverse d))) - 2)))"

text \<open>Where a cell lies. \<open>on_face chunck d x\<close>: the cell is on the plane of face \<open>d\<close>.
  \<open>lies_on chunck ds x\<close>: the cell is in the block and the faces it is on are exactly
  those of \<open>ds\<close>; with one face it is a cell inside that face, with two a cell of the
  edge between them, with three a corner, with none a strictly interior cell.\<close>

fun on_face :: "(COORDINATE \<Rightarrow> unsigned) \<Rightarrow> DIRECTION \<Rightarrow> cell \<Rightarrow> bool" where
  "on_face chunck LEFT (i, j, k) = (i = 0)"
| "on_face chunck RIGHT (i, j, k) = (i = unat (chunck X) - 1)"
| "on_face chunck BOTTOM (i, j, k) = (j = 0)"
| "on_face chunck TOP (i, j, k) = (j = unat (chunck Y) - 1)"
| "on_face chunck BACK (i, j, k) = (k = 0)"
| "on_face chunck FRONT (i, j, k) = (k = unat (chunck Z) - 1)"

definition in_block :: "(COORDINATE \<Rightarrow> unsigned) \<Rightarrow> cell \<Rightarrow> bool" where
  "in_block chunck x = (case x of (i, j, k) \<Rightarrow> i < unat (chunck X) \<and> j < unat (chunck Y) \<and> k < unat (chunck Z))"

definition lies_on :: "(COORDINATE \<Rightarrow> unsigned) \<Rightarrow> DIRECTION list \<Rightarrow> cell \<Rightarrow> bool" where
  "lies_on chunck ds x =
     (in_block chunck x \<and>
      list_all (\<lambda>d. on_face chunck d x = (d \<in> set ds)) [LEFT, RIGHT, BOTTOM, TOP, BACK, FRONT])"

definition on_some_face :: "(COORDINATE \<Rightarrow> unsigned) \<Rightarrow> cell \<Rightarrow> bool" where
  "on_some_face chunck x = list_ex (\<lambda>d. on_face chunck d x) [LEFT, RIGHT, BOTTOM, TOP, BACK, FRONT]"

text \<open>\<open>n\<close> steps into the block from face \<open>d\<close>.\<close>

fun inward :: "DIRECTION \<Rightarrow> nat \<Rightarrow> cell \<Rightarrow> cell" where
  "inward LEFT n (i, j, k) = (i + n, j, k)"
| "inward RIGHT n (i, j, k) = (i - n, j, k)"
| "inward BOTTOM n (i, j, k) = (i, j + n, k)"
| "inward TOP n (i, j, k) = (i, j - n, k)"
| "inward BACK n (i, j, k) = (i, j, k + n)"
| "inward FRONT n (i, j, k) = (i, j, k - n)"

text \<open>The twelve edges as pairs of faces and the eight corners as triples of faces, in
  the order of the blocks of the source. The first face of a pair is the one from which
  the source steps inwards.\<close>

definition edge_pairs :: "(DIRECTION \<times> DIRECTION) list" where
  "edge_pairs =
     [(LEFT, BOTTOM), (LEFT, TOP), (LEFT, BACK), (LEFT, FRONT),
      (RIGHT, BOTTOM), (RIGHT, TOP), (RIGHT, BACK), (RIGHT, FRONT),
      (BACK, BOTTOM), (BACK, TOP), (FRONT, BOTTOM), (FRONT, TOP)]"

definition corner_triples :: "(DIRECTION \<times> DIRECTION \<times> DIRECTION) list" where
  "corner_triples =
     [(LEFT, BOTTOM, BACK), (LEFT, BOTTOM, FRONT), (LEFT, TOP, BACK), (LEFT, TOP, FRONT),
      (RIGHT, BOTTOM, BACK), (RIGHT, BOTTOM, FRONT), (RIGHT, TOP, BACK), (RIGHT, TOP, FRONT)]"


text \<open>Block sizes for which the loop counters and the buffer sizes, computed in
  \<open>unsigned\<close>, do not wrap around, and buffers of the allocated sizes.\<close>

definition sizes_ok :: "(COORDINATE \<Rightarrow> unsigned) \<Rightarrow> bool" where
  "sizes_ok chunck =
     (3 \<le> unat (chunck X) \<and> 3 \<le> unat (chunck Y) \<and> 3 \<le> unat (chunck Z)
      \<and> (unat (chunck Y) - 1) * (unat (chunck Z) - 1) < 2 ^ 32
      \<and> (unat (chunck X) - 1) * (unat (chunck Z) - 1) < 2 ^ 32
      \<and> (unat (chunck X) - 1) * (unat (chunck Y) - 1) < 2 ^ 32)"

definition buffers_ok :: "(DIRECTION \<Rightarrow> nat option) \<Rightarrow> (COORDINATE \<Rightarrow> unsigned) \<Rightarrow> (DIRECTION \<Rightarrow> buffer) \<Rightarrow> bool" where
  "buffers_ok neighbors chunck bufs =
     list_all (\<lambda>d. length (bufs d) = buffer_size neighbors chunck d) [LEFT, RIGHT, BOTTOM, TOP, BACK, FRONT]"

text \<open>The seven-point update of the header comment (lines 8-41) at one cell, from the
  previous field; line 609 announces it for the internal domain.\<close>

definition stencil_at :: "(COORDINATE \<Rightarrow> floatT) \<Rightarrow> field \<Rightarrow> cell \<Rightarrow> floatT" where
  "stencil_at D T0 x = (case x of (i, j, k) \<Rightarrow>
     elt T0 (i, j, k)
     + D X * (elt T0 (i + 1, j, k) - 2 * elt T0 (i, j, k) + elt T0 (i - 1, j, k))
     + D Y * (elt T0 (i, j + 1, k) - 2 * elt T0 (i, j, k) + elt T0 (i, j - 1, k))
     + D Z * (elt T0 (i, j, k + 1) - 2 * elt T0 (i, j, k) + elt T0 (i, j, k - 1)))"



subsection \<open>A concrete run: one process, a 3 by 3 by 3 grid\<close>

text \<open>The command line \<open>3 3 3 ITER_MAX EPS\<close> on a single process: \<open>MPI_Dims_create\<close>
  gives a 1 by 1 by 1 process grid, the process has coordinates (0, 0, 0) and no
  neighbour in any direction.\<close>

definition cells3 :: "COORDINATE \<Rightarrow> unsigned" where
  "cells3 d = 3"

definition grid1 :: "COORDINATE \<Rightarrow> unsigned" where
  "grid1 d = 1"

definition origin :: "COORDINATE \<Rightarrow> unsigned" where
  "origin d = 0"

definition alone :: "DIRECTION \<Rightarrow> nat option" where
  "alone d = None"

text \<open>The result of a computation at one cell, when there is one.\<close>

definition cell_of :: "field option \<Rightarrow> cell \<Rightarrow> floatT option" where
  "cell_of r x = (case r of None \<Rightarrow> None | Some T \<Rightarrow> rd T x)"

text \<open>A process whose only neighbour is on the left, and a previous field that is zero
  except for a 7 at the cell (1, 1, 1).\<close>

definition left_only :: "DIRECTION \<Rightarrow> nat option" where
  "left_only d = (if d = LEFT then Some 0 else None)"

definition marked :: field where
  "marked = put (allocate cells3) (1, 1, 1) 7"

text \<open>The first pass of the time loop on the single process, the value it leaves at a
  cell and the value the seven-point update gives there.\<close>

definition first_pass :: "(block \<times> floatT) option" where
  "first_pass =
     (case start_block alone origin cells3 (spacing_of cells3) of
        None \<Rightarrow> None
      | Some s \<Rightarrow> iteration alone cells3 (D_of (spacing_of cells3)) (allocate_buffers alone cells3) s)"

definition new_value :: "(block \<times> floatT) option \<Rightarrow> cell \<Rightarrow> floatT option" where
  "new_value r x = (case r of None \<Rightarrow> None | Some (s, res) \<Rightarrow> Some (elt (fieldT s) x))"

definition claimed_value :: "(COORDINATE \<Rightarrow> floatT) \<Rightarrow> (block \<times> floatT) option \<Rightarrow> cell \<Rightarrow> floatT option" where
  "claimed_value D r x = (case r of None \<Rightarrow> None | Some (s, res) \<Rightarrow> Some (stencil_at D (fieldT0 s) x))"

subsection \<open>A concrete run: four processes, a 3 by 3 by 3 grid\<close>


definition thin :: "COORDINATE \<Rightarrow> unsigned" where
  "thin d = (case d of X \<Rightarrow> 2 | Y \<Rightarrow> 2 | Z \<Rightarrow> 3)"




subsection \<open>A concrete run: 27 processes, a 7 by 7 by 7 grid\<close>




subsection \<open>A concrete run: two processes, a 5 by 3 by 3 grid\<close>







section \<open>Loops and memory\<close>

lemma for_loop_append:
  "for_loop (xs @ ys) body s = (case for_loop xs body s of None \<Rightarrow> None | Some s' \<Rightarrow> for_loop ys body s')"
  by (induction xs arbitrary: s) (auto split: option.splits)

lemma for_loop_map: "for_loop (map f xs) body s = for_loop xs (\<lambda>x. body (f x)) s"
  by (induction xs arbitrary: s) (auto split: option.splits)

lemma for_loop_nested:
  "for_loop xs (\<lambda>x. for_loop ys (body x)) = for_loop (List.product xs ys) (\<lambda>p. body (fst p) (snd p))"
proof
  fix s show "for_loop xs (\<lambda>x. for_loop ys (body x)) s = for_loop (List.product xs ys) (\<lambda>p. body (fst p) (snd p)) s"
    by (induction xs arbitrary: s) (auto simp: for_loop_append for_loop_map split: option.splits)
qed

lemma shape_inside:
  "shape c T \<Longrightarrow> inside T (i, j, k) \<longleftrightarrow> i < unat (c X) \<and> j < unat (c Y) \<and> k < unat (c Z)"
  by (auto simp: shape_def inside_def list_all_length)

lemma nth_update_total: "xs[i := v] ! j = (if i = j \<and> j < length xs then v else xs ! j)"
  by (cases "i < length xs") (auto simp: nth_list_update list_update_beyond)

lemma shape_put: "shape c T \<Longrightarrow> shape c (put T x v)"
  by (cases x) (auto simp: shape_def put_def list_all_length nth_update_total)

lemma elt_put: "inside T x \<Longrightarrow> elt (put T x v) y = (if y = x then v else elt T y)"
  by (cases x; cases y) (auto simp: inside_def elt_def put_def nth_list_update)

lemma elt_put_other: "y \<noteq> x \<Longrightarrow> elt (put T x v) y = elt T y"
  by (cases x; cases y) (auto simp: elt_def put_def nth_update_total)

lemma for_loop_invariant:
  assumes "I [] s"
    and "\<And>pre x post s. xs = pre @ x # post \<Longrightarrow> I pre s \<Longrightarrow> \<exists>s'. body x s = Some s' \<and> I (pre @ [x]) s'"
  shows "\<exists>s'. for_loop xs body s = Some s' \<and> I xs s'"
  using assms
proof (induction xs arbitrary: s I)
  case Nil
  then show ?case by simp
next
  case (Cons x xs)
  from Cons.prems(2) [of "[]" x xs s] Cons.prems(1)
  obtain s1 where s1: "body x s = Some s1" "I [x] s1" by auto
  have "\<exists>s'. for_loop xs body s1 = Some s' \<and> (\<lambda>pre. I (x # pre)) xs s'"
  proof (rule Cons.IH)
    show "I [x] s1" by (rule s1)
  next
    fix pre y post t
    assume "xs = pre @ y # post" "I (x # pre) t"
    then show "\<exists>s'. body y t = Some s' \<and> I (x # pre @ [y]) s'"
      using Cons.prems(2) [of "x # pre" y post t] by simp
  qed
  with s1 show ?case by simp
qed

lemma assign_loop:
  assumes sh: "shape c T0"
    and dist: "distinct (map p xs)"
    and step: "\<And>x S. x \<in> set xs \<Longrightarrow> shape c S \<Longrightarrow> (\<forall>y. y \<notin> p ` set xs \<longrightarrow> elt S y = elt T0 y)
                 \<Longrightarrow> inside S (p x) \<and> body x S = Some (put S (p x) (v x))"
  shows "\<exists>T'. for_loop xs body T0 = Some T' \<and> shape c T'
            \<and> (\<forall>x\<in>set xs. elt T' (p x) = v x)
            \<and> (\<forall>y. y \<notin> p ` set xs \<longrightarrow> elt T' y = elt T0 y)"
proof -
  define I where "I = (\<lambda>pre S. shape c S \<and> (\<forall>x\<in>set pre. elt S (p x) = v x)
                        \<and> (\<forall>y. y \<notin> p ` set pre \<longrightarrow> elt S y = elt T0 y))"
  have "\<exists>T'. for_loop xs body T0 = Some T' \<and> I xs T'"
  proof (rule for_loop_invariant)
    show "I [] T0" using sh by (simp add: I_def)
  next
    fix pre x post S
    assume xs: "xs = pre @ x # post" and inv: "I pre S"
    have fresh: "p x \<notin> p ` set pre" using dist xs by auto
    have "x \<in> set xs" using xs by simp
    moreover have "shape c S" using inv by (simp add: I_def)
    moreover have "\<forall>y. y \<notin> p ` set xs \<longrightarrow> elt S y = elt T0 y"
    proof (intro allI impI)
      fix y assume "y \<notin> p ` set xs"
      then have "y \<notin> p ` set pre" using xs by auto
      then show "elt S y = elt T0 y" using inv unfolding I_def by blast
    qed
    ultimately have st: "inside S (p x)" "body x S = Some (put S (p x) (v x))"
      using step by blast+
    have old: "p x' \<noteq> p x" if "x' \<in> set pre" for x'
      using fresh that by (metis imageI)
    have "I (pre @ [x]) (put S (p x) (v x))"
      using inv fresh st(1) old by (auto simp: I_def shape_put elt_put)
    with st(2) show "\<exists>s'. body x S = Some s' \<and> I (pre @ [x]) s'" by simp
  qed
  then show ?thesis by (simp add: I_def)
qed

lemma counter_loop:
  assumes sh: "shape c T0"
    and dist: "distinct (map p xs)"
    and step: "\<And>m S. m < length xs \<Longrightarrow> shape c S
                 \<Longrightarrow> inside S (p (xs ! m)) \<and> body (xs ! m) (S, n0 + m) = Some (put S (p (xs ! m)) (v m), n0 + m + 1)"
  shows "\<exists>T'. for_loop xs body (T0, n0) = Some (T', n0 + length xs) \<and> shape c T'
            \<and> (\<forall>m<length xs. elt T' (p (xs ! m)) = v m)
            \<and> (\<forall>y. y \<notin> p ` set xs \<longrightarrow> elt T' y = elt T0 y)"
proof -
  define I where "I = (\<lambda>pre s. snd s = n0 + length pre \<and> shape c (fst s)
                        \<and> (\<forall>m<length pre. elt (fst s) (p (pre ! m)) = v m)
                        \<and> (\<forall>y. y \<notin> p ` set pre \<longrightarrow> elt (fst s) y = elt T0 y))"
  have "\<exists>s'. for_loop xs body (T0, n0) = Some s' \<and> I xs s'"
  proof (rule for_loop_invariant)
    show "I [] (T0, n0)" using sh by (simp add: I_def)
  next
    fix pre x post s
    assume xs: "xs = pre @ x # post" and inv: "I pre s"
    obtain S n where s: "s = (S, n)" by (cases s)
    have n: "n = n0 + length pre" and shS: "shape c S" using inv s by (simp_all add: I_def)
    have fresh: "p x \<notin> p ` set pre" using dist xs by auto
    have m: "length pre < length xs" "xs ! length pre = x" using xs by simp_all
    from step [OF m(1) shS] m(2) n
    have st: "inside S (p x)" "body x (S, n) = Some (put S (p x) (v (length pre)), n + 1)"
      by simp_all
    have old: "p (pre ! m) \<noteq> p x" if "m < length pre" for m
      using fresh that by (metis imageI nth_mem)
    have "I (pre @ [x]) (put S (p x) (v (length pre)), n + 1)"
      using inv fresh st(1) s n old
      by (auto simp: I_def shape_put elt_put nth_append less_Suc_eq)
    with st(2) s show "\<exists>s'. body x s = Some s' \<and> I (pre @ [x]) s'" by simp
  qed
  then show ?thesis by (auto simp: I_def)
qed

lemma dec1: "1 \<le> unat (w::unsigned) \<Longrightarrow> unat (w - 1) = unat w - 1"
  by (simp add: unat_sub word_le_nat_alt)

lemma dec2: "2 \<le> unat (w::unsigned) \<Longrightarrow> unat (w - 2) = unat w - 2"
  by (simp add: unat_sub word_le_nat_alt)

lemma dec11: "2 \<le> unat (w::unsigned) \<Longrightarrow> unat (w - 1 - 1) = unat w - 2"
  by (simp add: unat_sub word_le_nat_alt)

lemma dec12: "3 \<le> unat (w::unsigned) \<Longrightarrow> unat (w - 1 - 2) = unat w - 3"
  by (simp add: unat_sub word_le_nat_alt)

lemma assign_loop2:
  assumes sh: "shape c T0"
    and inj: "inj_on p (set xs \<times> set ys)" and dxs: "distinct xs" and dys: "distinct ys"
    and step: "\<And>a b S. a \<in> set xs \<Longrightarrow> b \<in> set ys \<Longrightarrow> shape c S
                 \<Longrightarrow> (\<forall>y. y \<notin> p ` (set xs \<times> set ys) \<longrightarrow> elt S y = elt T0 y)
                 \<Longrightarrow> inside S (p (a, b)) \<and> body a b S = Some (put S (p (a, b)) (v (a, b)))"
  shows "\<exists>T'. for_loop xs (\<lambda>a. for_loop ys (body a)) T0 = Some T' \<and> shape c T'
            \<and> (\<forall>a\<in>set xs. \<forall>b\<in>set ys. elt T' (p (a, b)) = v (a, b))
            \<and> (\<forall>y. y \<notin> p ` (set xs \<times> set ys) \<longrightarrow> elt T' y = elt T0 y)"
proof -
  have d: "distinct (map p (List.product xs ys))"
    using inj dxs dys by (simp add: distinct_map distinct_product)
  have "\<exists>T'. for_loop (List.product xs ys) (\<lambda>q. body (fst q) (snd q)) T0 = Some T' \<and> shape c T'
            \<and> (\<forall>x\<in>set (List.product xs ys). elt T' (p x) = v x)
            \<and> (\<forall>y. y \<notin> p ` set (List.product xs ys) \<longrightarrow> elt T' y = elt T0 y)"
  proof (rule assign_loop [OF sh d])
    fix x S
    assume "x \<in> set (List.product xs ys)" "shape c S"
      "\<forall>y. y \<notin> p ` set (List.product xs ys) \<longrightarrow> elt S y = elt T0 y"
    then have "fst x \<in> set xs" "snd x \<in> set ys" "shape c S"
      "\<forall>y. y \<notin> p ` (set xs \<times> set ys) \<longrightarrow> elt S y = elt T0 y"
      unfolding set_product by auto
    from step [OF this] show "inside S (p x) \<and> body (fst x) (snd x) S = Some (put S (p x) (v x))"
      by simp
  qed
  then show ?thesis by (simp add: for_loop_nested)
qed

lemma fill_loop2:
  assumes sh: "shape c T0"
    and inj: "inj_on p (set xs \<times> set ys)" and dxs: "distinct xs" and dys: "distinct ys"
    and ins: "\<And>a b S. a \<in> set xs \<Longrightarrow> b \<in> set ys \<Longrightarrow> shape c S \<Longrightarrow> inside S (p (a, b))"
    and body: "\<And>a b S. a \<in> set xs \<Longrightarrow> b \<in> set ys \<Longrightarrow> body a b S = wr S (p (a, b)) (g (p (a, b)))"
  shows "\<exists>T'. for_loop xs (\<lambda>a. for_loop ys (body a)) T0 = Some T' \<and> shape c T'
            \<and> (\<forall>y. elt T' y = (if y \<in> p ` (set xs \<times> set ys) then g y else elt T0 y))"
proof -
  have "\<exists>T'. for_loop xs (\<lambda>a. for_loop ys (body a)) T0 = Some T' \<and> shape c T'
            \<and> (\<forall>a\<in>set xs. \<forall>b\<in>set ys. elt T' (p (a, b)) = (g \<circ> p) (a, b))
            \<and> (\<forall>y. y \<notin> p ` (set xs \<times> set ys) \<longrightarrow> elt T' y = elt T0 y)"
    by (rule assign_loop2 [OF sh inj dxs dys]) (simp add: ins body wr_def)
  then obtain T' where T': "for_loop xs (\<lambda>a. for_loop ys (body a)) T0 = Some T'" "shape c T'"
    "\<And>a b. a \<in> set xs \<Longrightarrow> b \<in> set ys \<Longrightarrow> elt T' (p (a, b)) = g (p (a, b))"
    "\<And>y. y \<notin> p ` (set xs \<times> set ys) \<Longrightarrow> elt T' y = elt T0 y"
    by auto
  have "elt T' y = (if y \<in> p ` (set xs \<times> set ys) then g y else elt T0 y)" for y
    using T'(3,4) by (cases "y \<in> p ` (set xs \<times> set ys)") auto
  with T'(1,2) show ?thesis by blast
qed

lemma bc_top_spec:
  assumes sh: "shape c T" and ny: "1 \<le> unat (c Y)"
  shows "\<exists>T'. bc_top nb c T = Some T' \<and> shape c T'
            \<and> (\<forall>i j k. elt T' (i, j, k) =
                 (if nb TOP = None \<and> i < unat (c X) \<and> j = unat (c Y) - 1 \<and> k < unat (c Z) then 1
                  else elt T (i, j, k)))"
proof (cases "nb TOP = None")
  case False
  then show ?thesis using sh by (auto simp: bc_top_def)
next
  case True
  define p where "p = (\<lambda>q::nat \<times> nat. (fst q, unat (c Y) - 1, snd q))"
  have mem: "(i, j, k) \<in> p ` ({0..<unat (c X)} \<times> {0..<unat (c Z)})
             \<longleftrightarrow> i < unat (c X) \<and> j = unat (c Y) - 1 \<and> k < unat (c Z)" for i j k
    by (auto simp: p_def image_iff)
  have "\<exists>T'. for_loop [0..<unat (c X)] (\<lambda>i. for_loop [0..<unat (c Z)] (\<lambda>k T. wr T (i, unat (c Y - 1), k) 1.0)) T = Some T'
          \<and> shape c T'
          \<and> (\<forall>y. elt T' y = (if y \<in> p ` (set [0..<unat (c X)] \<times> set [0..<unat (c Z)]) then (\<lambda>y. 1) y else elt T y))"
    by (rule fill_loop2 [OF sh]) (insert ny, auto simp: inj_on_def p_def shape_inside dec1)
  then show ?thesis using True by (simp add: bc_top_def mem)
qed

section \<open>Partition\<close>

lemma shape_allocate: "shape chunck (allocate chunck)"
  by (simp add: shape_def allocate_def list_all_length)

text \<open>
  C6. If the divisibility condition \<open>(numCells[d] - 1) % dimension3D[d] == 0\<close> fails on
  some axis, set-up aborts on an assert and no field is allocated; if it holds on all
  three axes, set-up allocates a field of the partition's size. The process grid extents
  are those of \<open>MPI_Dims_create\<close>, which are never zero.
\<close>

theorem C6_start_up_divisibility:
  assumes "dimension3D X \<noteq> 0" "dimension3D Y \<noteq> 0" "dimension3D Z \<noteq> 0"
  shows "(if divisible numCells dimension3D X \<and> divisible numCells dimension3D Y
             \<and> divisible numCells dimension3D Z
          then \<exists>T. start_up numCells dimension3D = Inr (chunck_of numCells dimension3D, T)
                 \<and> shape (chunck_of numCells dimension3D) T
          else \<exists>d. \<not> divisible numCells dimension3D d \<and> start_up numCells dimension3D = Inl (Assert d))"
  by (auto simp: start_up_def partition_domain_def shape_allocate)

theorem C6_start_up_divisibility_witness:
  "(\<exists>T. start_up (\<lambda>d. 5) (\<lambda>d. 2) = Inr (chunck_of (\<lambda>d. 5) (\<lambda>d. 2), T) \<and> shape (chunck_of (\<lambda>d. 5) (\<lambda>d. 2)) T)
   \<and> (\<exists>d. \<not> divisible (\<lambda>d. 6) (\<lambda>d. 2) d \<and> start_up (\<lambda>d. 6) (\<lambda>d. 2) = Inl (Assert d))"
  using C6_start_up_divisibility [of "\<lambda>d. 2" "\<lambda>d. 5"] C6_start_up_divisibility [of "\<lambda>d. 2" "\<lambda>d. 6"]
  by (simp add: divisible_def)


section \<open>Initial and boundary conditions\<close>

lemma bc_left_spec:
  assumes sh: "shape c T" and nx: "1 \<le> unat (c X)"
  shows "\<exists>T'. bc_left nb c rmp T = Some T' \<and> shape c T'
            \<and> (\<forall>i j k. elt T' (i, j, k) =
                 (if nb LEFT = None \<and> i = 0 \<and> j < unat (c Y) \<and> k < unat (c Z) then rmp j
                  else elt T (i, j, k)))"
proof (cases "nb LEFT = None")
  case False
  then show ?thesis using sh by (auto simp: bc_left_def)
next
  case True
  define p where "p = (\<lambda>q::nat \<times> nat. (0::nat, fst q, snd q))"
  have mem: "(i, j, k) \<in> p ` ({0..<unat (c Y)} \<times> {0..<unat (c Z)})
             \<longleftrightarrow> i = 0 \<and> j < unat (c Y) \<and> k < unat (c Z)" for i j k
    by (auto simp: p_def image_iff)
  have "\<exists>T'. for_loop [0..<unat (c Y)] (\<lambda>j. for_loop [0..<unat (c Z)] (\<lambda>k T. wr T (0, j, k) (rmp j))) T = Some T'
          \<and> shape c T'
          \<and> (\<forall>y. elt T' y = (if y \<in> p ` (set [0..<unat (c Y)] \<times> set [0..<unat (c Z)]) then (\<lambda>y. rmp (fst (snd y))) y else elt T y))"
    by (rule fill_loop2 [OF sh]) (insert nx, auto simp: inj_on_def p_def shape_inside)
  then show ?thesis using True by (auto simp: bc_left_def mem)
qed

lemma bc_right_spec:
  assumes sh: "shape c T" and nx: "1 \<le> unat (c X)"
  shows "\<exists>T'. bc_right nb c rmp T = Some T' \<and> shape c T'
            \<and> (\<forall>i j k. elt T' (i, j, k) =
                 (if nb RIGHT = None \<and> i = unat (c X) - 1 \<and> j < unat (c Y) \<and> k < unat (c Z) then rmp j
                  else elt T (i, j, k)))"
proof (cases "nb RIGHT = None")
  case False
  then show ?thesis using sh by (auto simp: bc_right_def)
next
  case True
  define p where "p = (\<lambda>q::nat \<times> nat. (unat (c X) - 1, fst q, snd q))"
  have mem: "(i, j, k) \<in> p ` ({0..<unat (c Y)} \<times> {0..<unat (c Z)})
             \<longleftrightarrow> i = unat (c X) - 1 \<and> j < unat (c Y) \<and> k < unat (c Z)" for i j k
    by (auto simp: p_def image_iff)
  have "\<exists>T'. for_loop [0..<unat (c Y)] (\<lambda>j. for_loop [0..<unat (c Z)] (\<lambda>k T. wr T (unat (c X - 1), j, k) (rmp j))) T = Some T'
          \<and> shape c T'
          \<and> (\<forall>y. elt T' y = (if y \<in> p ` (set [0..<unat (c Y)] \<times> set [0..<unat (c Z)]) then (\<lambda>y. rmp (fst (snd y))) y else elt T y))"
    by (rule fill_loop2 [OF sh]) (insert nx, auto simp: inj_on_def p_def shape_inside dec1)
  then show ?thesis using True by (auto simp: bc_right_def mem)
qed

lemma bc_back_spec:
  assumes sh: "shape c T" and nz: "1 \<le> unat (c Z)"
  shows "\<exists>T'. bc_back nb c rmp T = Some T' \<and> shape c T'
            \<and> (\<forall>i j k. elt T' (i, j, k) =
                 (if nb BACK = None \<and> i < unat (c X) \<and> j < unat (c Y) \<and> k = 0 then rmp j
                  else elt T (i, j, k)))"
proof (cases "nb BACK = None")
  case False
  then show ?thesis using sh by (auto simp: bc_back_def)
next
  case True
  define p where "p = (\<lambda>q::nat \<times> nat. (fst q, snd q, 0::nat))"
  have mem: "(i, j, k) \<in> p ` ({0..<unat (c X)} \<times> {0..<unat (c Y)})
             \<longleftrightarrow> i < unat (c X) \<and> j < unat (c Y) \<and> k = 0" for i j k
    by (auto simp: p_def image_iff)
  have "\<exists>T'. for_loop [0..<unat (c X)] (\<lambda>i. for_loop [0..<unat (c Y)] (\<lambda>j T. wr T (i, j, 0) (rmp j))) T = Some T'
          \<and> shape c T'
          \<and> (\<forall>y. elt T' y = (if y \<in> p ` (set [0..<unat (c X)] \<times> set [0..<unat (c Y)]) then (\<lambda>y. rmp (fst (snd y))) y else elt T y))"
    by (rule fill_loop2 [OF sh]) (insert nz, auto simp: inj_on_def p_def shape_inside)
  then show ?thesis using True by (auto simp: bc_back_def mem)
qed

lemma bc_front_spec:
  assumes sh: "shape c T" and nz: "1 \<le> unat (c Z)"
  shows "\<exists>T'. bc_front nb c rmp T = Some T' \<and> shape c T'
            \<and> (\<forall>i j k. elt T' (i, j, k) =
                 (if nb FRONT = None \<and> i < unat (c X) \<and> j < unat (c Y) \<and> k = unat (c Z) - 1 then rmp j
                  else elt T (i, j, k)))"
proof (cases "nb FRONT = None")
  case False
  then show ?thesis using sh by (auto simp: bc_front_def)
next
  case True
  define p where "p = (\<lambda>q::nat \<times> nat. (fst q, snd q, unat (c Z) - 1))"
  have mem: "(i, j, k) \<in> p ` ({0..<unat (c X)} \<times> {0..<unat (c Y)})
             \<longleftrightarrow> i < unat (c X) \<and> j < unat (c Y) \<and> k = unat (c Z) - 1" for i j k
    by (auto simp: p_def image_iff)
  have "\<exists>T'. for_loop [0..<unat (c X)] (\<lambda>i. for_loop [0..<unat (c Y)] (\<lambda>j T. wr T (i, j, unat (c Z - 1)) (rmp j))) T = Some T'
          \<and> shape c T'
          \<and> (\<forall>y. elt T' y = (if y \<in> p ` (set [0..<unat (c X)] \<times> set [0..<unat (c Y)]) then (\<lambda>y. rmp (fst (snd y))) y else elt T y))"
    by (rule fill_loop2 [OF sh]) (insert nz, auto simp: inj_on_def p_def shape_inside dec1)
  then show ?thesis using True by (auto simp: bc_front_def mem)
qed

lemma for_loop_nested3:
  "for_loop xs (\<lambda>x. for_loop ys (\<lambda>y. for_loop zs (body x y)))
   = for_loop (List.product xs (List.product ys zs)) (\<lambda>p. body (fst p) (fst (snd p)) (snd (snd p)))"
  by (simp add: for_loop_nested)

lemma zero_everywhere_spec:
  assumes sh: "shape c T"
  shows "\<exists>T'. zero_everywhere c T = Some T' \<and> shape c T'
            \<and> (\<forall>i j k. elt T' (i, j, k) =
                 (if i < unat (c X) \<and> j < unat (c Y) \<and> k < unat (c Z) then 0 else elt T (i, j, k)))"
proof -
  let ?cells = "List.product [0..<unat (c X)] (List.product [0..<unat (c Y)] [0..<unat (c Z)])"
  have "\<exists>T'. for_loop ?cells (\<lambda>p T. wr T (fst p, fst (snd p), snd (snd p)) 0.0) T = Some T' \<and> shape c T'
            \<and> (\<forall>x\<in>set ?cells. elt T' ((\<lambda>x. x) x) = (\<lambda>x. 0) x)
            \<and> (\<forall>y. y \<notin> (\<lambda>x. x) ` set ?cells \<longrightarrow> elt T' y = elt T y)"
    by (rule assign_loop [OF sh]) (auto simp: distinct_product wr_def shape_inside)
  then obtain T' where T': "zero_everywhere c T = Some T'" "shape c T'"
    "\<And>x. x \<in> set ?cells \<Longrightarrow> elt T' x = 0" "\<And>y. y \<notin> set ?cells \<Longrightarrow> elt T' y = elt T y"
    by (auto simp: zero_everywhere_def for_loop_nested3)
  have "elt T' (i, j, k) = (if i < unat (c X) \<and> j < unat (c Y) \<and> k < unat (c Z) then 0 else elt T (i, j, k))" for i j k
    using T'(3) [of "(i, j, k)"] T'(4) [of "(i, j, k)"] by auto
  with T'(1,2) show ?thesis by blast
qed

lemma initial_conditions_spec:
  assumes sh: "shape c T" and n: "1 \<le> unat (c X)" "1 \<le> unat (c Y)" "1 \<le> unat (c Z)"
  shows "\<exists>T'. initial_conditions nb coords c sp T = Some T' \<and> shape c T'
            \<and> (\<forall>i j k. i < unat (c X) \<longrightarrow> j < unat (c Y) \<longrightarrow> k < unat (c Z) \<longrightarrow> elt T' (i, j, k) =
                 (if (nb FRONT = None \<and> k = unat (c Z) - 1) \<or> (nb BACK = None \<and> k = 0)
                     \<or> (nb RIGHT = None \<and> i = unat (c X) - 1) \<or> (nb LEFT = None \<and> i = 0)
                  then ramp coords c sp j
                  else if nb TOP = None \<and> j = unat (c Y) - 1 then 1 else 0))"
proof -
  obtain T1 where T1: "zero_everywhere c T = Some T1" "shape c T1"
    "\<And>i j k. elt T1 (i, j, k) = (if i < unat (c X) \<and> j < unat (c Y) \<and> k < unat (c Z) then 0 else elt T (i, j, k))"
    using zero_everywhere_spec [OF sh] by blast
  obtain T2 where T2: "bc_top nb c T1 = Some T2" "shape c T2"
    "\<And>i j k. elt T2 (i, j, k) = (if nb TOP = None \<and> i < unat (c X) \<and> j = unat (c Y) - 1 \<and> k < unat (c Z) then 1
                  else elt T1 (i, j, k))"
    using bc_top_spec [OF T1(2) n(2)] by blast
  obtain T3 where T3: "bc_left nb c (ramp coords c sp) T2 = Some T3" "shape c T3"
    "\<And>i j k. elt T3 (i, j, k) = (if nb LEFT = None \<and> i = 0 \<and> j < unat (c Y) \<and> k < unat (c Z) then ramp coords c sp j
                  else elt T2 (i, j, k))"
    using bc_left_spec [OF T2(2) n(1)] by blast
  obtain T4 where T4: "bc_right nb c (ramp coords c sp) T3 = Some T4" "shape c T4"
    "\<And>i j k. elt T4 (i, j, k) = (if nb RIGHT = None \<and> i = unat (c X) - 1 \<and> j < unat (c Y) \<and> k < unat (c Z) then ramp coords c sp j
                  else elt T3 (i, j, k))"
    using bc_right_spec [OF T3(2) n(1)] by blast
  obtain T5 where T5: "bc_back nb c (ramp coords c sp) T4 = Some T5" "shape c T5"
    "\<And>i j k. elt T5 (i, j, k) = (if nb BACK = None \<and> i < unat (c X) \<and> j < unat (c Y) \<and> k = 0 then ramp coords c sp j
                  else elt T4 (i, j, k))"
    using bc_back_spec [OF T4(2) n(3)] by blast
  obtain T6 where T6: "bc_front nb c (ramp coords c sp) T5 = Some T6" "shape c T6"
    "\<And>i j k. elt T6 (i, j, k) = (if nb FRONT = None \<and> i < unat (c X) \<and> j < unat (c Y) \<and> k = unat (c Z) - 1 then ramp coords c sp j
                  else elt T5 (i, j, k))"
    using bc_front_spec [OF T5(2) n(3)] by blast
  have "initial_conditions nb coords c sp T = Some T6"
    by (simp add: initial_conditions_def T1(1) T2(1) T3(1) T4(1) T5(1) T6(1))
  moreover have "elt T6 (i, j, k) =
                 (if (nb FRONT = None \<and> k = unat (c Z) - 1) \<or> (nb BACK = None \<and> k = 0)
                     \<or> (nb RIGHT = None \<and> i = unat (c X) - 1) \<or> (nb LEFT = None \<and> i = 0)
                  then ramp coords c sp j
                  else if nb TOP = None \<and> j = unat (c Y) - 1 then 1 else 0)"
    if r: "i < unat (c X)" "j < unat (c Y)" "k < unat (c Z)" for i j k
  proof -
    define F where "F = (nb FRONT = None \<and> k = unat (c Z) - 1)"
    define B where "B = (nb BACK = None \<and> k = 0)"
    define R where "R = (nb RIGHT = None \<and> i = unat (c X) - 1)"
    define L where "L = (nb LEFT = None \<and> i = 0)"
    define U where "U = (nb TOP = None \<and> j = unat (c Y) - 1)"
    have e1: "elt T1 (i, j, k) = 0" using r by (simp add: T1(3))
    have e2: "elt T2 (i, j, k) = (if U then 1 else 0)"
      using r by (simp add: T2(3) e1 U_def)
    have e3: "elt T3 (i, j, k) = (if L then ramp coords c sp j else elt T2 (i, j, k))"
      using r by (simp add: T3(3) L_def)
    have e4: "elt T4 (i, j, k) = (if R then ramp coords c sp j else elt T3 (i, j, k))"
      using r by (simp add: T4(3) R_def)
    have e5: "elt T5 (i, j, k) = (if B then ramp coords c sp j else elt T4 (i, j, k))"
      using r by (simp add: T5(3) B_def)
    have e6: "elt T6 (i, j, k) = (if F then ramp coords c sp j else elt T5 (i, j, k))"
      using r by (simp add: T6(3) F_def)
    have "elt T6 (i, j, k) = (if F \<or> B \<or> R \<or> L then ramp coords c sp j else if U then 1 else 0)"
      unfolding e6 e5 e4 e3 e2 by simp
    then show ?thesis unfolding F_def B_def R_def L_def U_def .
  qed
  ultimately show ?thesis using T6(2) by blast
qed


lemma unat_cells3 [simp]: "unat (cells3 d) = 3"
  by (simp add: cells3_def)

lemma cell_of_Some: "r = Some T \<Longrightarrow> shape c T \<Longrightarrow> i < unat (c X) \<Longrightarrow> j < unat (c Y) \<Longrightarrow> k < unat (c Z)
   \<Longrightarrow> cell_of r (i, j, k) = Some (elt T (i, j, k))"
  by (simp add: cell_of_def rd_def shape_inside)

lemma ramp_origin: "ramp origin cells3 (spacing_of cells3) j = real (j mod 2 ^ 32) / 2"
  by (simp add: ramp_def origin_def spacing_of_def cells3_def unat_of_nat)

text \<open>
  C4, counterexample. On a single process with a 3 by 3 by 3 grid no face has a
  neighbour. After the initial conditions the centre cells of the LEFT, RIGHT, BACK and
  FRONT faces all hold the ramp value \<open>1 * spacing[Y] = 1/2\<close>, the centre of the TOP
  face holds 1 and the centre of the BOTTOM face holds 0: four faces carry the ramp,
  not three.
\<close>

theorem C4_counterexample:
  "cell_of (initial_conditions alone origin cells3 (spacing_of cells3) (allocate cells3)) (0, 1, 1) = Some (1 / 2)
   \<and> cell_of (initial_conditions alone origin cells3 (spacing_of cells3) (allocate cells3)) (2, 1, 1) = Some (1 / 2)
   \<and> cell_of (initial_conditions alone origin cells3 (spacing_of cells3) (allocate cells3)) (1, 1, 0) = Some (1 / 2)
   \<and> cell_of (initial_conditions alone origin cells3 (spacing_of cells3) (allocate cells3)) (1, 1, 2) = Some (1 / 2)
   \<and> cell_of (initial_conditions alone origin cells3 (spacing_of cells3) (allocate cells3)) (1, 2, 1) = Some 1
   \<and> cell_of (initial_conditions alone origin cells3 (spacing_of cells3) (allocate cells3)) (1, 0, 1) = Some 0"
proof -
  obtain T' where T': "initial_conditions alone origin cells3 (spacing_of cells3) (allocate cells3) = Some T'"
    "shape cells3 T'"
    "\<And>i j k. i < 3 \<Longrightarrow> j < 3 \<Longrightarrow> k < 3 \<Longrightarrow> elt T' (i, j, k) =
        (if k = 2 \<or> k = 0 \<or> i = 2 \<or> i = 0 then real (j mod 2 ^ 32) / 2 else if j = 2 then 1 else 0)"
    using initial_conditions_spec [OF shape_allocate, of cells3 alone origin "spacing_of cells3"]
    by (auto simp: alone_def ramp_origin)
  show ?thesis
    using T'(3) [of 0 1 1] T'(3) [of 2 1 1] T'(3) [of 1 1 0] T'(3) [of 1 1 2] T'(3) [of 1 2 1] T'(3) [of 1 0 1]
    by (simp add: cell_of_Some [OF T'(1,2)])
qed

text \<open>
  C4, as amended. Before the time loop, on a freshly allocated block with at least one
  cell per axis, the initial conditions are defined and leave, at every cell
  \<open>(i, j, k)\<close> of the block: the ramp \<open>(coordinates3D[Y] * (chunck[Y] - 1) + j) *
  spacing[Y]\<close> on each of the LEFT, RIGHT, BACK and FRONT faces that has no neighbour
  (up to four faces); otherwise 1.0 on the TOP face if it has no neighbour; otherwise
  0.0, the BOTTOM face included. A face with a neighbour gets no boundary value.
\<close>

theorem C4_initial_conditions:
  assumes "1 \<le> unat (chunck X)" "1 \<le> unat (chunck Y)" "1 \<le> unat (chunck Z)"
  shows "\<exists>T'. initial_conditions neighbors coordinates3D chunck spacing (allocate chunck) = Some T'
            \<and> shape chunck T'
            \<and> (\<forall>i j k. i < unat (chunck X) \<longrightarrow> j < unat (chunck Y) \<longrightarrow> k < unat (chunck Z) \<longrightarrow>
                 elt T' (i, j, k) =
                 (if (neighbors FRONT = None \<and> k = unat (chunck Z) - 1) \<or> (neighbors BACK = None \<and> k = 0)
                     \<or> (neighbors RIGHT = None \<and> i = unat (chunck X) - 1) \<or> (neighbors LEFT = None \<and> i = 0)
                  then ramp coordinates3D chunck spacing j
                  else if neighbors TOP = None \<and> j = unat (chunck Y) - 1 then 1 else 0))"
  using initial_conditions_spec [OF shape_allocate assms] .

theorem C4_initial_conditions_witness:
  "1 \<le> unat (cells3 X) \<and> 1 \<le> unat (cells3 Y) \<and> 1 \<le> unat (cells3 Z)
   \<and> cell_of (initial_conditions alone origin cells3 (spacing_of cells3) (allocate cells3)) (0, 2, 0) = Some 1
   \<and> cell_of (initial_conditions alone origin cells3 (spacing_of cells3) (allocate cells3)) (1, 1, 1) = Some 0"
proof -
  have n: "1 \<le> unat (cells3 X)" "1 \<le> unat (cells3 Y)" "1 \<le> unat (cells3 Z)" by simp_all
  from C4_initial_conditions [OF n, of alone origin "spacing_of cells3"]
  obtain T' where T': "initial_conditions alone origin cells3 (spacing_of cells3) (allocate cells3) = Some T'"
    "shape cells3 T'"
    "\<And>i j k. i < 3 \<Longrightarrow> j < 3 \<Longrightarrow> k < 3 \<Longrightarrow> elt T' (i, j, k) =
        (if k = 2 \<or> k = 0 \<or> i = 2 \<or> i = 0 then real (j mod 2 ^ 32) / 2 else if j = 2 then 1 else 0)"
    by (auto simp: alone_def ramp_origin)
  show ?thesis
    using T'(3) [of 0 2 0] T'(3) [of 1 1 1] by (simp add: cell_of_Some [OF T'(1,2)])
qed

section \<open>Residual\<close>

lemma DBL_MIN_pos: "0 < DBL_MIN"
  unfolding DBL_MIN_def by (rule divide_pos_pos) simp_all

lemma residual_loop:
  assumes "\<And>x. x \<in> set xs \<Longrightarrow> inside T x \<and> inside T0 x"
  shows "for_loop xs (\<lambda>p res. do { a \<leftarrow> rd T p; b \<leftarrow> rd T0 p;
                                    Some (if \<bar>a - b\<bar> > res then \<bar>a - b\<bar> else res) }) r
         = Some (max_change T T0 xs r)"
  using assms by (induction xs arbitrary: r) (simp_all add: rd_def max_change_def)

lemma max_change_lower: "r \<le> max_change T T0 xs r"
proof (induction xs arbitrary: r)
  case Nil
  then show ?case by (simp add: max_change_def)
next
  case (Cons x xs)
  have "r \<le> (if \<bar>elt T x - elt T0 x\<bar> > r then \<bar>elt T x - elt T0 x\<bar> else r)" by simp
  also have "\<dots> \<le> max_change T T0 xs (if \<bar>elt T x - elt T0 x\<bar> > r then \<bar>elt T x - elt T0 x\<bar> else r)"
    by (rule Cons.IH)
  finally show ?case by (simp add: max_change_def)
qed

lemma max_change_upper: "x \<in> set xs \<Longrightarrow> \<bar>elt T x - elt T0 x\<bar> \<le> max_change T T0 xs r"
proof (induction xs arbitrary: r)
  case Nil
  then show ?case by simp
next
  case (Cons y ys)
  let ?r = "if \<bar>elt T y - elt T0 y\<bar> > r then \<bar>elt T y - elt T0 y\<bar> else r"
  have step: "max_change T T0 (y # ys) r = max_change T T0 ys ?r" by (simp add: max_change_def)
  show ?case
  proof (cases "x = y")
    case True
    have "\<bar>elt T y - elt T0 y\<bar> \<le> ?r" by simp
    also have "\<dots> \<le> max_change T T0 ys ?r" by (rule max_change_lower)
    finally show ?thesis using True step by simp
  next
    case False
    then have "x \<in> set ys" using Cons.prems by simp
    then show ?thesis using Cons.IH step by simp
  qed
qed

lemma max_change_attained:
  "max_change T T0 xs r = r \<or> (\<exists>x\<in>set xs. max_change T T0 xs r = \<bar>elt T x - elt T0 x\<bar>)"
proof (induction xs arbitrary: r)
  case Nil
  then show ?case by (simp add: max_change_def)
next
  case (Cons y ys)
  let ?r = "if \<bar>elt T y - elt T0 y\<bar> > r then \<bar>elt T y - elt T0 y\<bar> else r"
  have step: "max_change T T0 (y # ys) r = max_change T T0 ys ?r" by (simp add: max_change_def)
  from Cons.IH [of ?r] show ?case unfolding step by (auto split: if_splits)
qed

lemma max_change_equal:
  assumes "\<And>x. x \<in> set xs \<Longrightarrow> elt T x = elt T0 x" and "0 \<le> r"
  shows "max_change T T0 xs r = r"
  using assms by (induction xs arbitrary: r) (simp_all add: max_change_def)

lemma interior_cells_iff:
  "(i, j, k) \<in> set (interior_cells c) \<longleftrightarrow>
     1 \<le> i \<and> i + 2 \<le> unat (c X) \<and> 1 \<le> j \<and> j + 2 \<le> unat (c Y) \<and> 1 \<le> k \<and> k + 2 \<le> unat (c Z)"
  by (auto simp: interior_cells_def)

lemma residual_spec:
  assumes sh: "shape c T" "shape c T0"
    and n: "1 \<le> unat (c X)" "1 \<le> unat (c Y)" "1 \<le> unat (c Z)"
  shows "residual c T T0 = Some (max_change T T0 (interior_cells c) DBL_MIN)"
proof -
  have "for_loop (interior_cells c) (\<lambda>p res. do { a \<leftarrow> rd T p; b \<leftarrow> rd T0 p;
                                    Some (if \<bar>a - b\<bar> > res then \<bar>a - b\<bar> else res) }) DBL_MIN
        = Some (max_change T T0 (interior_cells c) DBL_MIN)"
  proof (rule residual_loop)
    fix x assume x: "x \<in> set (interior_cells c)"
    obtain i j k where "x = (i, j, k)" by (cases x)
    with x show "inside T x \<and> inside T0 x"
      using sh by (auto simp: interior_cells_iff shape_inside)
  qed
  then show ?thesis
    using n by (simp add: residual_def for_loop_nested3 interior_cells_def dec1)
qed

text \<open>
  C5, the code at a failing input. When the current and the previous field agree at
  every interior cell (here: both all zero, on the 3 by 3 by 3 block) the residual
  loops return \<open>std::numeric_limits<double>::min()\<close>, their start value, which is not
  0.
\<close>

theorem C5_residual_is_DBL_MIN_when_nothing_changed:
  "residual cells3 (allocate cells3) (allocate cells3) = Some DBL_MIN \<and> DBL_MIN \<noteq> 0"
proof -
  have "residual cells3 (allocate cells3) (allocate cells3)
        = Some (max_change (allocate cells3) (allocate cells3) (interior_cells cells3) DBL_MIN)"
    by (rule residual_spec) (simp_all add: shape_allocate)
  moreover have "max_change (allocate cells3) (allocate cells3) (interior_cells cells3) DBL_MIN = DBL_MIN"
    by (rule max_change_equal) (use DBL_MIN_pos in simp_all)
  ultimately show ?thesis using DBL_MIN_pos by simp
qed

text \<open>
  C10. On blocks of the partition's shape the residual loops stay inside the vectors
  and return a value \<open>res\<close> that is at least \<open>std::numeric_limits<double>::min()\<close>,
  hence never 0.0; so in pass 0 the guard \<open>res != 0.0\<close> succeeds and \<open>norm\<close> is
  overwritten with \<open>res\<close>: the branch that leaves \<open>norm\<close> at 1.0 is never taken.
\<close>

theorem C10_residual_at_least_DBL_MIN:
  assumes "shape chunck T" "shape chunck T0"
    and "1 \<le> unat (chunck X)" "1 \<le> unat (chunck Y)" "1 \<le> unat (chunck Z)"
  shows "\<exists>res. residual chunck T T0 = Some res \<and> DBL_MIN \<le> res \<and> res \<noteq> 0.0
               \<and> norm_factor (store_norm 0 res st) = res"
proof -
  let ?r = "max_change T T0 (interior_cells chunck) DBL_MIN"
  have "residual chunck T T0 = Some ?r" by (rule residual_spec [OF assms])
  moreover have "DBL_MIN \<le> ?r" by (rule max_change_lower)
  moreover from this have "?r \<noteq> 0" using DBL_MIN_pos by simp
  ultimately show ?thesis by (simp add: store_norm_def)
qed

theorem C10_residual_at_least_DBL_MIN_witness:
  "shape cells3 (allocate cells3) \<and> 1 \<le> unat (cells3 X) \<and> 1 \<le> unat (cells3 Y) \<and> 1 \<le> unat (cells3 Z)
   \<and> (\<exists>res. residual cells3 (allocate cells3) (allocate cells3) = Some res \<and> DBL_MIN \<le> res \<and> res \<noteq> 0.0
               \<and> norm_factor (store_norm 0 res initial_convergence) = res)"
  using C10_residual_at_least_DBL_MIN [of cells3 "allocate cells3" "allocate cells3" initial_convergence]
  by (simp add: shape_allocate)

section \<open>Packing the send buffers\<close>

lemma pack_loop:
  assumes "\<And>x. x \<in> set xs \<Longrightarrow> inside T0 x" and "n + length xs \<le> length b"
  shows "for_loop xs (pack_cell T0) (b, n)
         = Some (take n b @ map (elt T0) xs @ drop (n + length xs) b, n + length xs)"
  using assms
proof (induction xs arbitrary: b n)
  case Nil
  then show ?case by simp
next
  case (Cons x xs)
  have n: "n < length b" using Cons.prems(2) by simp
  have step: "pack_cell T0 x (b, n) = Some (b[n := elt T0 x], n + 1)"
    using Cons.prems(1) [of x] n by (simp add: pack_cell_def rd_def wrb_def)
  have "for_loop xs (pack_cell T0) (b[n := elt T0 x], n + 1)
        = Some (take (n + 1) (b[n := elt T0 x]) @ map (elt T0) xs @ drop (n + 1 + length xs) (b[n := elt T0 x]),
                n + 1 + length xs)"
    by (rule Cons.IH) (use Cons.prems in simp_all)
  moreover have "take (n + 1) (b[n := elt T0 x]) = take n b @ [elt T0 x]"
    using n by (simp add: take_Suc_conv_app_nth)
  moreover have "drop (n + 1 + length xs) (b[n := elt T0 x]) = drop (n + 1 + length xs) b"
    by simp
  ultimately show ?case using step by simp
qed

lemma pack_loop2:
  assumes "\<And>a b. a \<in> set as \<Longrightarrow> b \<in> set bs \<Longrightarrow> inside T0 (f (a, b))"
    and "length as * length bs \<le> length buf"
  shows "for_loop as (\<lambda>a. for_loop bs (\<lambda>b. pack_cell T0 (f (a, b)))) (buf, 0)
         = Some (map (\<lambda>p. elt T0 (f p)) (List.product as bs) @ drop (length as * length bs) buf,
                 length as * length bs)"
proof -
  have "for_loop (map f (List.product as bs)) (pack_cell T0) (buf, 0)
        = Some (take 0 buf @ map (elt T0) (map f (List.product as bs))
                  @ drop (0 + length (map f (List.product as bs))) buf,
                0 + length (map f (List.product as bs)))"
    by (rule pack_loop) (use assms in auto)
  then show ?thesis
    by (simp add: for_loop_nested for_loop_map comp_def)
qed

lemma buffer_size_nat:
  assumes "nb d \<noteq> None" and "1 \<le> unat (c (fst (transverse d)))" and "1 \<le> unat (c (snd (transverse d)))"
    and "(unat (c (fst (transverse d))) - 1) * (unat (c (snd (transverse d))) - 1) < 2 ^ 32"
  shows "buffer_size nb c d = (unat (c (fst (transverse d))) - 1) * (unat (c (snd (transverse d))) - 1)"
  using assms by (simp add: buffer_size_def unat_word_ariths dec1)

lemma layer_le: "(a - Suc (Suc 0)) * (b - Suc (Suc 0)) \<le> (a - Suc 0) * (b - Suc 0)"
  by (rule mult_le_mono) simp_all

lemma pack_spec:
  assumes sh: "shape c T0" and n: "2 \<le> unat (c X)" "2 \<le> unat (c Y)" "2 \<le> unat (c Z)"
    and nb: "nb d \<noteq> None" and len: "length b = buffer_size nb c d"
    and noov: "(unat (c (fst (transverse d))) - 1) * (unat (c (snd (transverse d))) - 1) < 2 ^ 32"
  shows "pack nb c T0 d b
         = Some (packed c T0 d @ drop (length (packed c T0 d)) b, length (packed c T0 d))"
proof -
  have n1: "1 \<le> unat (c X)" "1 \<le> unat (c Y)" "1 \<le> unat (c Z)" using n by simp_all
  have n1': "1 \<le> unat (c (fst (transverse d)))" "1 \<le> unat (c (snd (transverse d)))"
    using n1 by (cases d; simp)+
  have lb: "length b = (unat (c (fst (transverse d))) - 1) * (unat (c (snd (transverse d))) - 1)"
    using buffer_size_nat [of nb d c] nb n1' noov len by simp
  show ?thesis
  proof (cases d)
    case LEFT
    have "for_loop [1..<unat (c Y) - 1] (\<lambda>j. for_loop [1..<unat (c Z) - 1] (\<lambda>k. pack_cell T0 ((\<lambda>p. (1, fst p, snd p)) (j, k)))) (b, 0)
          = Some (map (\<lambda>p. elt T0 ((\<lambda>p. (1, fst p, snd p)) p)) (List.product [1..<unat (c Y) - 1] [1..<unat (c Z) - 1])
                   @ drop (length [1..<unat (c Y) - 1] * length [1..<unat (c Z) - 1]) b,
                  length [1..<unat (c Y) - 1] * length [1..<unat (c Z) - 1])"
      by (rule pack_loop2) (use sh n lb LEFT layer_le [of "unat (c Y)" "unat (c Z)"] in \<open>auto simp: shape_inside\<close>)
    then show ?thesis using LEFT nb n1 by (simp add: packed_def dec1 case_prod_beta)
  next
    case RIGHT
    have "for_loop [1..<unat (c Y) - 1] (\<lambda>j. for_loop [1..<unat (c Z) - 1] (\<lambda>k. pack_cell T0 ((\<lambda>p. (unat (c X) - 2, fst p, snd p)) (j, k)))) (b, 0)
          = Some (map (\<lambda>p. elt T0 ((\<lambda>p. (unat (c X) - 2, fst p, snd p)) p)) (List.product [1..<unat (c Y) - 1] [1..<unat (c Z) - 1])
                   @ drop (length [1..<unat (c Y) - 1] * length [1..<unat (c Z) - 1]) b,
                  length [1..<unat (c Y) - 1] * length [1..<unat (c Z) - 1])"
      by (rule pack_loop2) (use sh n lb RIGHT layer_le [of "unat (c Y)" "unat (c Z)"] in \<open>auto simp: shape_inside\<close>)
    then show ?thesis using RIGHT nb n n1 by (simp add: packed_def dec1 dec2 case_prod_beta)
  next
    case BOTTOM
    have "for_loop [1..<unat (c X) - 1] (\<lambda>i. for_loop [1..<unat (c Z) - 1] (\<lambda>k. pack_cell T0 ((\<lambda>p. (fst p, 1, snd p)) (i, k)))) (b, 0)
          = Some (map (\<lambda>p. elt T0 ((\<lambda>p. (fst p, 1, snd p)) p)) (List.product [1..<unat (c X) - 1] [1..<unat (c Z) - 1])
                   @ drop (length [1..<unat (c X) - 1] * length [1..<unat (c Z) - 1]) b,
                  length [1..<unat (c X) - 1] * length [1..<unat (c Z) - 1])"
      by (rule pack_loop2) (use sh n lb BOTTOM layer_le [of "unat (c X)" "unat (c Z)"] in \<open>auto simp: shape_inside\<close>)
    then show ?thesis using BOTTOM nb n1 by (simp add: packed_def dec1 case_prod_beta)
  next
    case TOP
    have "for_loop [1..<unat (c X) - 1] (\<lambda>i. for_loop [1..<unat (c Z) - 1] (\<lambda>k. pack_cell T0 ((\<lambda>p. (fst p, unat (c Y) - 2, snd p)) (i, k)))) (b, 0)
          = Some (map (\<lambda>p. elt T0 ((\<lambda>p. (fst p, unat (c Y) - 2, snd p)) p)) (List.product [1..<unat (c X) - 1] [1..<unat (c Z) - 1])
                   @ drop (length [1..<unat (c X) - 1] * length [1..<unat (c Z) - 1]) b,
                  length [1..<unat (c X) - 1] * length [1..<unat (c Z) - 1])"
      by (rule pack_loop2) (use sh n lb TOP layer_le [of "unat (c X)" "unat (c Z)"] in \<open>auto simp: shape_inside\<close>)
    then show ?thesis using TOP nb n n1 by (simp add: packed_def dec1 dec2 case_prod_beta)
  next
    case BACK
    have "for_loop [1..<unat (c X) - 1] (\<lambda>i. for_loop [1..<unat (c Y) - 1] (\<lambda>j. pack_cell T0 ((\<lambda>p. (fst p, snd p, 1)) (i, j)))) (b, 0)
          = Some (map (\<lambda>p. elt T0 ((\<lambda>p. (fst p, snd p, 1)) p)) (List.product [1..<unat (c X) - 1] [1..<unat (c Y) - 1])
                   @ drop (length [1..<unat (c X) - 1] * length [1..<unat (c Y) - 1]) b,
                  length [1..<unat (c X) - 1] * length [1..<unat (c Y) - 1])"
      by (rule pack_loop2) (use sh n lb BACK layer_le [of "unat (c X)" "unat (c Y)"] in \<open>auto simp: shape_inside\<close>)
    then show ?thesis using BACK nb n1 by (simp add: packed_def dec1 case_prod_beta)
  next
    case FRONT
    have "for_loop [1..<unat (c X) - 1] (\<lambda>i. for_loop [1..<unat (c Y) - 1] (\<lambda>j. pack_cell T0 ((\<lambda>p. (fst p, snd p, unat (c Z) - 2)) (i, j)))) (b, 0)
          = Some (map (\<lambda>p. elt T0 ((\<lambda>p. (fst p, snd p, unat (c Z) - 2)) p)) (List.product [1..<unat (c X) - 1] [1..<unat (c Y) - 1])
                   @ drop (length [1..<unat (c X) - 1] * length [1..<unat (c Y) - 1]) b,
                  length [1..<unat (c X) - 1] * length [1..<unat (c Y) - 1])"
      by (rule pack_loop2) (use sh n lb FRONT layer_le [of "unat (c X)" "unat (c Y)"] in \<open>auto simp: shape_inside\<close>)
    then show ?thesis using FRONT nb n n1 by (simp add: packed_def dec1 dec2 case_prod_beta)
  qed
qed

lemma packed_length:
  "length (packed c T0 d) = (unat (c (fst (transverse d))) - 2) * (unat (c (snd (transverse d))) - 2)"
  by (simp add: packed_def numeral_2_eq_2)

lemma packed_fits:
  assumes "nb d \<noteq> None" and "1 \<le> unat (c (fst (transverse d)))" and "1 \<le> unat (c (snd (transverse d)))"
    and "(unat (c (fst (transverse d))) - 1) * (unat (c (snd (transverse d))) - 1) < 2 ^ 32"
  shows "length (packed c T0 d) \<le> buffer_size nb c d"
  using buffer_size_nat [of nb d c] assms
    layer_le [of "unat (c (fst (transverse d)))" "unat (c (snd (transverse d)))"]
  by (simp add: packed_length numeral_2_eq_2)

lemma transverse_ge:
  assumes "n \<le> unat (c X)" "n \<le> unat (c Y)" "n \<le> unat (c Z)"
  shows "n \<le> unat (c (fst (transverse d)))" "n \<le> unat (c (snd (transverse d)))"
  using assms by (cases d; simp)+

text \<open>
  C8, as amended. For a direction \<open>d\<close> with a neighbour, on a well-shaped \<open>T0\<close> with at
  least two cells per axis and a send buffer of the allocated size (the product in its
  \<open>resize\<close> not overflowing), packing stays inside the vectors and fills the first
  \<open>(chunck[outer] - 2) * (chunck[inner] - 2)\<close> entries of the buffer, in (outer, inner)
  order, with the values of \<open>T0\<close> on the layer next to the face at the transverse
  indices from 1 to \<open>chunck - 2\<close>, both included; the rest of the buffer is left as
  it was.
\<close>

theorem C8_pack:
  assumes "shape chunck T0" and "2 \<le> unat (chunck X)" "2 \<le> unat (chunck Y)" "2 \<le> unat (chunck Z)"
    and "neighbors d \<noteq> None" and "length b = buffer_size neighbors chunck d"
    and "(unat (chunck (fst (transverse d))) - 1) * (unat (chunck (snd (transverse d))) - 1) < 2 ^ 32"
  shows "\<exists>b'. pack neighbors chunck T0 d b = Some (b', length (packed chunck T0 d))
            \<and> length b' = length b
            \<and> take (length (packed chunck T0 d)) b' = packed chunck T0 d
            \<and> drop (length (packed chunck T0 d)) b' = drop (length (packed chunck T0 d)) b"
proof -
  have "1 \<le> unat (chunck (fst (transverse d)))" "1 \<le> unat (chunck (snd (transverse d)))"
    using transverse_ge [of 1 chunck d] assms(2-4) by simp_all
  then have "length (packed chunck T0 d) \<le> length b"
    using packed_fits [of neighbors d chunck T0] assms(5-7) by simp
  then show ?thesis
    using pack_spec [OF assms] by simp
qed

lemma shape_marked: "shape cells3 marked"
  by (simp add: marked_def shape_put shape_allocate)

lemma elt_marked: "elt marked (Suc 0, Suc 0, Suc 0) = 7"
  by (simp add: marked_def elt_put shape_inside [OF shape_allocate])

lemma buffer_size_left_only: "buffer_size left_only cells3 LEFT = 4"
  by (simp add: buffer_size_def left_only_def cells3_def)

lemma buffer_left_only: "allocate_buffers left_only cells3 LEFT = [0, 0, 0, 0]"
  by (simp add: allocate_buffers_def buffer_size_left_only numeral_eq_Suc)

lemma packed_marked: "packed cells3 marked LEFT = [7]"
  by (simp add: packed_def elt_marked upt_rec)

theorem C8_pack_witness:
  "pack left_only cells3 marked LEFT (allocate_buffers left_only cells3 LEFT) = Some ([7, 0, 0, 0], 1)"
proof -
  have "\<exists>b'. pack left_only cells3 marked LEFT (allocate_buffers left_only cells3 LEFT)
               = Some (b', length (packed cells3 marked LEFT))
            \<and> length b' = length (allocate_buffers left_only cells3 LEFT)
            \<and> take (length (packed cells3 marked LEFT)) b' = packed cells3 marked LEFT
            \<and> drop (length (packed cells3 marked LEFT)) b'
                = drop (length (packed cells3 marked LEFT)) (allocate_buffers left_only cells3 LEFT)"
    by (rule C8_pack) (simp_all add: shape_marked buffer_left_only buffer_size_left_only left_only_def)
  then obtain b' where b': "pack left_only cells3 marked LEFT (allocate_buffers left_only cells3 LEFT) = Some (b', 1)"
    "take 1 b' = [7]" "drop 1 b' = [0, 0, 0]"
    by (auto simp: packed_marked buffer_left_only)
  have "b' = take 1 b' @ drop 1 b'" by simp
  then have "b' = [7, 0, 0, 0]" unfolding b'(2,3) by simp
  then show ?thesis using b'(1) by simp
qed

text \<open>
  C8, counterexample. On the 3 by 3 by 3 block the only transverse index of the loops is
  1, which equals \<open>chunck - 2\<close>; no index lies strictly between 1 and \<open>chunck - 2\<close>.
  The code packs \<open>T0[1][1][1]\<close>, where the claim as worded packs nothing.
\<close>

theorem C8_counterexample:
  "pack left_only cells3 marked LEFT [0, 0, 0, 0] = Some ([7, 0, 0, 0], 1)
   \<and> packed_as_claimed cells3 marked LEFT = []"
proof -
  have "pack left_only cells3 marked LEFT [0, 0, 0, 0]
        = Some (packed cells3 marked LEFT @ drop (length (packed cells3 marked LEFT)) [0, 0, 0, 0],
                length (packed cells3 marked LEFT))"
    by (rule pack_spec) (simp_all add: shape_marked buffer_size_left_only left_only_def)
  then show ?thesis
    by (simp add: packed_marked packed_as_claimed_def strictly_between_def)
qed


section \<open>Faces, edges and corners\<close>

lemma shape_inside_block: "shape c T \<Longrightarrow> inside T x = in_block c x"
  by (cases x) (simp add: shape_inside in_block_def)

lemma counter_loop_frame:
  assumes sh: "shape c T0"
    and step: "\<And>m S. m < length xs \<Longrightarrow> shape c S
                 \<Longrightarrow> \<exists>v. body (xs ! m) (S, n0 + m) = Some (put S (p (xs ! m)) v, n0 + m + 1)"
  shows "\<exists>T'. for_loop xs body (T0, n0) = Some (T', n0 + length xs) \<and> shape c T'
            \<and> (\<forall>y. y \<notin> p ` set xs \<longrightarrow> elt T' y = elt T0 y)"
proof -
  define I where "I = (\<lambda>pre s. snd s = n0 + length pre \<and> shape c (fst s)
                        \<and> (\<forall>y. y \<notin> p ` set pre \<longrightarrow> elt (fst s) y = elt T0 y))"
  have "\<exists>s'. for_loop xs body (T0, n0) = Some s' \<and> I xs s'"
  proof (rule for_loop_invariant)
    show "I [] (T0, n0)" using sh by (simp add: I_def)
  next
    fix pre x post s
    assume xs: "xs = pre @ x # post" and inv: "I pre s"
    obtain S n where s: "s = (S, n)" by (cases s)
    have n: "n = n0 + length pre" and shS: "shape c S" using inv s by (simp_all add: I_def)
    have m: "length pre < length xs" "xs ! length pre = x" using xs by simp_all
    from step [OF m(1) shS] m(2) n
    obtain v where st: "body x (S, n) = Some (put S (p x) v, n + 1)" by auto
    have "I (pre @ [x]) (put S (p x) v, n + 1)"
      using inv s n by (auto simp: I_def shape_put elt_put_other)
    with st s show "\<exists>s'. body x s = Some s' \<and> I (pre @ [x]) s'" by simp
  qed
  then show ?thesis by (auto simp: I_def)
qed

lemma face_block_frame:
  assumes sh: "shape c S"
    and step: "\<And>a b n S. a \<in> set as \<Longrightarrow> b \<in> set bs \<Longrightarrow> n < length as * length bs \<Longrightarrow> shape c S
                 \<Longrightarrow> \<exists>v. body a b (S, n) = Some (put S (p (a, b)) v, n + 1)"
  shows "\<exists>S'. face_block (for_loop as (\<lambda>a. for_loop bs (body a))) S = Some S' \<and> shape c S'
            \<and> (\<forall>y. y \<notin> p ` (set as \<times> set bs) \<longrightarrow> elt S' y = elt S y)"
proof -
  have "\<exists>T'. for_loop (List.product as bs) (\<lambda>q. body (fst q) (snd q)) (S, 0)
                = Some (T', 0 + length (List.product as bs)) \<and> shape c T'
            \<and> (\<forall>y. y \<notin> p ` set (List.product as bs) \<longrightarrow> elt T' y = elt S y)"
  proof (rule counter_loop_frame [OF sh])
    fix m S'
    assume m: "m < length (List.product as bs)" and s: "shape c S'"
    then have "List.product as bs ! m \<in> set as \<times> set bs"
      using nth_mem [OF m] by simp
    then have "fst (List.product as bs ! m) \<in> set as" "snd (List.product as bs ! m) \<in> set bs"
      by (auto simp: mem_Times_iff)
    from step [OF this _ s, of m] m
    show "\<exists>v. body (fst (List.product as bs ! m)) (snd (List.product as bs ! m)) (S', 0 + m)
              = Some (put S' (p (List.product as bs ! m)) v, 0 + m + 1)"
      by simp
  qed
  then show ?thesis
    by (auto simp: face_block_def for_loop_nested)
qed

lemma upt_mem1: "a \<in> set [1..<n - 1] \<longleftrightarrow> 1 \<le> a \<and> a + 1 < n"
  by auto

lemma length_upt1: "length [1..<n - 1] = n - 2"
  by simp

lemma face_left_ok:
  assumes n: "3 \<le> unat (c X)" "3 \<le> unat (c Y)" "3 \<le> unat (c Z)"
    and shT0: "shape c T0" and sh: "shape c S"
    and len: "(unat (c Y) - 2) * (unat (c Z) - 2) \<le> length THalo"
  shows "\<exists>S'. face_block (for_loop [1..<unat (c Y - 1)] (\<lambda>a.
                  for_loop [1..<unat (c Z - 1)] (\<lambda>b. face_left D T0 THalo 0 a b))) S = Some S'
            \<and> shape c S' \<and> (\<forall>y. \<not> on_face c LEFT y \<longrightarrow> elt S' y = elt S y)"
proof -
  have d: "unat (c Y - 1) = unat (c Y) - 1" "unat (c Z - 1) = unat (c Z) - 1"
    using n by (simp_all add: dec1)
  have "\<exists>S'. face_block (for_loop [1..<unat (c Y) - 1] (\<lambda>a.
                  for_loop [1..<unat (c Z) - 1] (\<lambda>b. face_left D T0 THalo 0 a b))) S = Some S'
            \<and> shape c S'
            \<and> (\<forall>y. y \<notin> (\<lambda>q. (0, fst q, snd q)) ` (set [1..<unat (c Y) - 1] \<times> set [1..<unat (c Z) - 1])
                  \<longrightarrow> elt S' y = elt S y)"
  proof (rule face_block_frame [OF sh])
    fix a b m S'
    assume a: "a \<in> set [1..<unat (c Y) - 1]" and b: "b \<in> set [1..<unat (c Z) - 1]"
      and m: "m < length [1..<unat (c Y) - 1] * length [1..<unat (c Z) - 1]" and s: "shape c S'"
    have "m < length THalo" using m len unfolding length_upt1 by simp
    then show "\<exists>v. face_left D T0 THalo 0 a b (S', m) = Some (put S' ((\<lambda>q. (0, fst q, snd q)) (a, b)) v, m + 1)"
      using a b n unfolding upt_mem1
      by (auto simp: face_left_def rd_def rdb_def wr_def shape_inside [OF shT0] shape_inside [OF s] dec1 dec2)
  qed
  then obtain S' where S': "face_block (for_loop [1..<unat (c Y) - 1] (\<lambda>a.
                  for_loop [1..<unat (c Z) - 1] (\<lambda>b. face_left D T0 THalo 0 a b))) S = Some S'"
     "shape c S'"
     "\<And>y. y \<notin> (\<lambda>q. (0, fst q, snd q)) ` (set [1..<unat (c Y) - 1] \<times> set [1..<unat (c Z) - 1])
                  \<Longrightarrow> elt S' y = elt S y"
    by blast
  have "elt S' y = elt S y" if "\<not> on_face c LEFT y" for y
  proof (rule S'(3))
    obtain i j k where "y = (i, j, k)" by (cases y)
    with that show "y \<notin> (\<lambda>q. (0, fst q, snd q)) ` (set [1..<unat (c Y) - 1] \<times> set [1..<unat (c Z) - 1])"
      by auto
  qed
  then show ?thesis using S'(1,2) unfolding d by blast
qed

lemma face_right_ok:
  assumes n: "3 \<le> unat (c X)" "3 \<le> unat (c Y)" "3 \<le> unat (c Z)"
    and shT0: "shape c T0" and sh: "shape c S"
    and len: "(unat (c Y) - 2) * (unat (c Z) - 2) \<le> length THalo"
  shows "\<exists>S'. face_block (for_loop [1..<unat (c Y - 1)] (\<lambda>a.
                  for_loop [1..<unat (c Z - 1)] (\<lambda>b. face_right D T0 THalo (c X - 1) a b))) S = Some S'
            \<and> shape c S' \<and> (\<forall>y. \<not> on_face c RIGHT y \<longrightarrow> elt S' y = elt S y)"
proof -
  have d: "unat (c Y - 1) = unat (c Y) - 1" "unat (c Z - 1) = unat (c Z) - 1"
    using n by (simp_all add: dec1)
  have "\<exists>S'. face_block (for_loop [1..<unat (c Y) - 1] (\<lambda>a.
                  for_loop [1..<unat (c Z) - 1] (\<lambda>b. face_right D T0 THalo (c X - 1) a b))) S = Some S'
            \<and> shape c S'
            \<and> (\<forall>y. y \<notin> (\<lambda>q. (unat (c X) - 1, fst q, snd q)) ` (set [1..<unat (c Y) - 1] \<times> set [1..<unat (c Z) - 1])
                  \<longrightarrow> elt S' y = elt S y)"
  proof (rule face_block_frame [OF sh])
    fix a b m S'
    assume a: "a \<in> set [1..<unat (c Y) - 1]" and b: "b \<in> set [1..<unat (c Z) - 1]"
      and m: "m < length [1..<unat (c Y) - 1] * length [1..<unat (c Z) - 1]" and s: "shape c S'"
    have "m < length THalo" using m len unfolding length_upt1 by simp
    then show "\<exists>v. face_right D T0 THalo (c X - 1) a b (S', m) = Some (put S' ((\<lambda>q. (unat (c X) - 1, fst q, snd q)) (a, b)) v, m + 1)"
      using a b n unfolding upt_mem1
      by (auto simp: face_right_def rd_def rdb_def wr_def shape_inside [OF shT0] shape_inside [OF s] dec1 dec2)
  qed
  then obtain S' where S': "face_block (for_loop [1..<unat (c Y) - 1] (\<lambda>a.
                  for_loop [1..<unat (c Z) - 1] (\<lambda>b. face_right D T0 THalo (c X - 1) a b))) S = Some S'"
     "shape c S'"
     "\<And>y. y \<notin> (\<lambda>q. (unat (c X) - 1, fst q, snd q)) ` (set [1..<unat (c Y) - 1] \<times> set [1..<unat (c Z) - 1])
                  \<Longrightarrow> elt S' y = elt S y"
    by blast
  have "elt S' y = elt S y" if "\<not> on_face c RIGHT y" for y
  proof (rule S'(3))
    obtain i j k where "y = (i, j, k)" by (cases y)
    with that show "y \<notin> (\<lambda>q. (unat (c X) - 1, fst q, snd q)) ` (set [1..<unat (c Y) - 1] \<times> set [1..<unat (c Z) - 1])"
      by auto
  qed
  then show ?thesis using S'(1,2) unfolding d by blast
qed

lemma face_bottom_ok:
  assumes n: "3 \<le> unat (c X)" "3 \<le> unat (c Y)" "3 \<le> unat (c Z)"
    and shT0: "shape c T0" and sh: "shape c S"
    and len: "(unat (c X) - 2) * (unat (c Z) - 2) \<le> length THalo"
  shows "\<exists>S'. face_block (for_loop [1..<unat (c X - 1)] (\<lambda>a.
                  for_loop [1..<unat (c Z - 1)] (\<lambda>b. face_bottom D T0 THalo a 0 b))) S = Some S'
            \<and> shape c S' \<and> (\<forall>y. \<not> on_face c BOTTOM y \<longrightarrow> elt S' y = elt S y)"
proof -
  have d: "unat (c X - 1) = unat (c X) - 1" "unat (c Z - 1) = unat (c Z) - 1"
    using n by (simp_all add: dec1)
  have "\<exists>S'. face_block (for_loop [1..<unat (c X) - 1] (\<lambda>a.
                  for_loop [1..<unat (c Z) - 1] (\<lambda>b. face_bottom D T0 THalo a 0 b))) S = Some S'
            \<and> shape c S'
            \<and> (\<forall>y. y \<notin> (\<lambda>q. (fst q, 0, snd q)) ` (set [1..<unat (c X) - 1] \<times> set [1..<unat (c Z) - 1])
                  \<longrightarrow> elt S' y = elt S y)"
  proof (rule face_block_frame [OF sh])
    fix a b m S'
    assume a: "a \<in> set [1..<unat (c X) - 1]" and b: "b \<in> set [1..<unat (c Z) - 1]"
      and m: "m < length [1..<unat (c X) - 1] * length [1..<unat (c Z) - 1]" and s: "shape c S'"
    have "m < length THalo" using m len unfolding length_upt1 by simp
    then show "\<exists>v. face_bottom D T0 THalo a 0 b (S', m) = Some (put S' ((\<lambda>q. (fst q, 0, snd q)) (a, b)) v, m + 1)"
      using a b n unfolding upt_mem1
      by (auto simp: face_bottom_def rd_def rdb_def wr_def shape_inside [OF shT0] shape_inside [OF s] dec1 dec2)
  qed
  then obtain S' where S': "face_block (for_loop [1..<unat (c X) - 1] (\<lambda>a.
                  for_loop [1..<unat (c Z) - 1] (\<lambda>b. face_bottom D T0 THalo a 0 b))) S = Some S'"
     "shape c S'"
     "\<And>y. y \<notin> (\<lambda>q. (fst q, 0, snd q)) ` (set [1..<unat (c X) - 1] \<times> set [1..<unat (c Z) - 1])
                  \<Longrightarrow> elt S' y = elt S y"
    by blast
  have "elt S' y = elt S y" if "\<not> on_face c BOTTOM y" for y
  proof (rule S'(3))
    obtain i j k where "y = (i, j, k)" by (cases y)
    with that show "y \<notin> (\<lambda>q. (fst q, 0, snd q)) ` (set [1..<unat (c X) - 1] \<times> set [1..<unat (c Z) - 1])"
      by auto
  qed
  then show ?thesis using S'(1,2) unfolding d by blast
qed

lemma face_top_ok:
  assumes n: "3 \<le> unat (c X)" "3 \<le> unat (c Y)" "3 \<le> unat (c Z)"
    and shT0: "shape c T0" and sh: "shape c S"
    and len: "(unat (c X) - 2) * (unat (c Z) - 2) \<le> length THalo"
  shows "\<exists>S'. face_block (for_loop [1..<unat (c X - 1)] (\<lambda>a.
                  for_loop [1..<unat (c Z - 1)] (\<lambda>b. face_top D T0 THalo a (c Y - 1) b))) S = Some S'
            \<and> shape c S' \<and> (\<forall>y. \<not> on_face c TOP y \<longrightarrow> elt S' y = elt S y)"
proof -
  have d: "unat (c X - 1) = unat (c X) - 1" "unat (c Z - 1) = unat (c Z) - 1"
    using n by (simp_all add: dec1)
  have "\<exists>S'. face_block (for_loop [1..<unat (c X) - 1] (\<lambda>a.
                  for_loop [1..<unat (c Z) - 1] (\<lambda>b. face_top D T0 THalo a (c Y - 1) b))) S = Some S'
            \<and> shape c S'
            \<and> (\<forall>y. y \<notin> (\<lambda>q. (fst q, unat (c Y) - 1, snd q)) ` (set [1..<unat (c X) - 1] \<times> set [1..<unat (c Z) - 1])
                  \<longrightarrow> elt S' y = elt S y)"
  proof (rule face_block_frame [OF sh])
    fix a b m S'
    assume a: "a \<in> set [1..<unat (c X) - 1]" and b: "b \<in> set [1..<unat (c Z) - 1]"
      and m: "m < length [1..<unat (c X) - 1] * length [1..<unat (c Z) - 1]" and s: "shape c S'"
    have "m < length THalo" using m len unfolding length_upt1 by simp
    then show "\<exists>v. face_top D T0 THalo a (c Y - 1) b (S', m) = Some (put S' ((\<lambda>q. (fst q, unat (c Y) - 1, snd q)) (a, b)) v, m + 1)"
      using a b n unfolding upt_mem1
      by (auto simp: face_top_def rd_def rdb_def wr_def shape_inside [OF shT0] shape_inside [OF s] dec1 dec2)
  qed
  then obtain S' where S': "face_block (for_loop [1..<unat (c X) - 1] (\<lambda>a.
                  for_loop [1..<unat (c Z) - 1] (\<lambda>b. face_top D T0 THalo a (c Y - 1) b))) S = Some S'"
     "shape c S'"
     "\<And>y. y \<notin> (\<lambda>q. (fst q, unat (c Y) - 1, snd q)) ` (set [1..<unat (c X) - 1] \<times> set [1..<unat (c Z) - 1])
                  \<Longrightarrow> elt S' y = elt S y"
    by blast
  have "elt S' y = elt S y" if "\<not> on_face c TOP y" for y
  proof (rule S'(3))
    obtain i j k where "y = (i, j, k)" by (cases y)
    with that show "y \<notin> (\<lambda>q. (fst q, unat (c Y) - 1, snd q)) ` (set [1..<unat (c X) - 1] \<times> set [1..<unat (c Z) - 1])"
      by auto
  qed
  then show ?thesis using S'(1,2) unfolding d by blast
qed

lemma face_back_ok:
  assumes n: "3 \<le> unat (c X)" "3 \<le> unat (c Y)" "3 \<le> unat (c Z)"
    and shT0: "shape c T0" and sh: "shape c S"
    and len: "(unat (c X) - 2) * (unat (c Y) - 2) \<le> length THalo"
  shows "\<exists>S'. face_block (for_loop [1..<unat (c X - 1)] (\<lambda>a.
                  for_loop [1..<unat (c Y - 1)] (\<lambda>b. face_back D T0 THalo a b 0))) S = Some S'
            \<and> shape c S' \<and> (\<forall>y. \<not> on_face c BACK y \<longrightarrow> elt S' y = elt S y)"
proof -
  have d: "unat (c X - 1) = unat (c X) - 1" "unat (c Y - 1) = unat (c Y) - 1"
    using n by (simp_all add: dec1)
  have "\<exists>S'. face_block (for_loop [1..<unat (c X) - 1] (\<lambda>a.
                  for_loop [1..<unat (c Y) - 1] (\<lambda>b. face_back D T0 THalo a b 0))) S = Some S'
            \<and> shape c S'
            \<and> (\<forall>y. y \<notin> (\<lambda>q. (fst q, snd q, 0)) ` (set [1..<unat (c X) - 1] \<times> set [1..<unat (c Y) - 1])
                  \<longrightarrow> elt S' y = elt S y)"
  proof (rule face_block_frame [OF sh])
    fix a b m S'
    assume a: "a \<in> set [1..<unat (c X) - 1]" and b: "b \<in> set [1..<unat (c Y) - 1]"
      and m: "m < length [1..<unat (c X) - 1] * length [1..<unat (c Y) - 1]" and s: "shape c S'"
    have "m < length THalo" using m len unfolding length_upt1 by simp
    then show "\<exists>v. face_back D T0 THalo a b 0 (S', m) = Some (put S' ((\<lambda>q. (fst q, snd q, 0)) (a, b)) v, m + 1)"
      using a b n unfolding upt_mem1
      by (auto simp: face_back_def rd_def rdb_def wr_def shape_inside [OF shT0] shape_inside [OF s] dec1 dec2)
  qed
  then obtain S' where S': "face_block (for_loop [1..<unat (c X) - 1] (\<lambda>a.
                  for_loop [1..<unat (c Y) - 1] (\<lambda>b. face_back D T0 THalo a b 0))) S = Some S'"
     "shape c S'"
     "\<And>y. y \<notin> (\<lambda>q. (fst q, snd q, 0)) ` (set [1..<unat (c X) - 1] \<times> set [1..<unat (c Y) - 1])
                  \<Longrightarrow> elt S' y = elt S y"
    by blast
  have "elt S' y = elt S y" if "\<not> on_face c BACK y" for y
  proof (rule S'(3))
    obtain i j k where "y = (i, j, k)" by (cases y)
    with that show "y \<notin> (\<lambda>q. (fst q, snd q, 0)) ` (set [1..<unat (c X) - 1] \<times> set [1..<unat (c Y) - 1])"
      by auto
  qed
  then show ?thesis using S'(1,2) unfolding d by blast
qed

lemma face_front_ok:
  assumes n: "3 \<le> unat (c X)" "3 \<le> unat (c Y)" "3 \<le> unat (c Z)"
    and shT0: "shape c T0" and sh: "shape c S"
    and len: "(unat (c X) - 2) * (unat (c Y) - 2) \<le> length THalo"
  shows "\<exists>S'. face_block (for_loop [1..<unat (c X - 1)] (\<lambda>a.
                  for_loop [1..<unat (c Y - 1)] (\<lambda>b. face_front D T0 THalo a b (c Z - 1)))) S = Some S'
            \<and> shape c S' \<and> (\<forall>y. \<not> on_face c FRONT y \<longrightarrow> elt S' y = elt S y)"
proof -
  have d: "unat (c X - 1) = unat (c X) - 1" "unat (c Y - 1) = unat (c Y) - 1"
    using n by (simp_all add: dec1)
  have "\<exists>S'. face_block (for_loop [1..<unat (c X) - 1] (\<lambda>a.
                  for_loop [1..<unat (c Y) - 1] (\<lambda>b. face_front D T0 THalo a b (c Z - 1)))) S = Some S'
            \<and> shape c S'
            \<and> (\<forall>y. y \<notin> (\<lambda>q. (fst q, snd q, unat (c Z) - 1)) ` (set [1..<unat (c X) - 1] \<times> set [1..<unat (c Y) - 1])
                  \<longrightarrow> elt S' y = elt S y)"
  proof (rule face_block_frame [OF sh])
    fix a b m S'
    assume a: "a \<in> set [1..<unat (c X) - 1]" and b: "b \<in> set [1..<unat (c Y) - 1]"
      and m: "m < length [1..<unat (c X) - 1] * length [1..<unat (c Y) - 1]" and s: "shape c S'"
    have "m < length THalo" using m len unfolding length_upt1 by simp
    then show "\<exists>v. face_front D T0 THalo a b (c Z - 1) (S', m) = Some (put S' ((\<lambda>q. (fst q, snd q, unat (c Z) - 1)) (a, b)) v, m + 1)"
      using a b n unfolding upt_mem1
      by (auto simp: face_front_def rd_def rdb_def wr_def shape_inside [OF shT0] shape_inside [OF s] dec1 dec2)
  qed
  then obtain S' where S': "face_block (for_loop [1..<unat (c X) - 1] (\<lambda>a.
                  for_loop [1..<unat (c Y) - 1] (\<lambda>b. face_front D T0 THalo a b (c Z - 1)))) S = Some S'"
     "shape c S'"
     "\<And>y. y \<notin> (\<lambda>q. (fst q, snd q, unat (c Z) - 1)) ` (set [1..<unat (c X) - 1] \<times> set [1..<unat (c Y) - 1])
                  \<Longrightarrow> elt S' y = elt S y"
    by blast
  have "elt S' y = elt S y" if "\<not> on_face c FRONT y" for y
  proof (rule S'(3))
    obtain i j k where "y = (i, j, k)" by (cases y)
    with that show "y \<notin> (\<lambda>q. (fst q, snd q, unat (c Z) - 1)) ` (set [1..<unat (c X) - 1] \<times> set [1..<unat (c Y) - 1])"
      by auto
  qed
  then show ?thesis using S'(1,2) unfolding d by blast
qed

lemma dec3: "3 \<le> unat (w::unsigned) \<Longrightarrow> unat (w - 3) = unat w - 3"
  by (simp add: unat_sub word_le_nat_alt)

lemma extrapolate_loop:
  assumes sh: "shape c S"
    and inj: "inj_on p (set ts)" and dts: "distinct ts"
    and inb: "\<And>t. t \<in> set ts \<Longrightarrow> in_block c (p t) \<and> in_block c (q t) \<and> in_block c (r t)"
    and sep: "\<And>t t'. t \<in> set ts \<Longrightarrow> t' \<in> set ts \<Longrightarrow> q t \<noteq> p t' \<and> r t \<noteq> p t'"
  shows "\<exists>S'. for_loop ts (\<lambda>t. extrapolate (p t) (q t) (r t)) S = Some S' \<and> shape c S'
            \<and> (\<forall>t\<in>set ts. elt S' (p t) = (\<lambda>t. 2 * elt S (q t) - elt S (r t)) t)
            \<and> (\<forall>y. y \<notin> p ` set ts \<longrightarrow> elt S' y = elt S y)"
proof (rule assign_loop [OF sh])
  show "distinct (map p ts)" using inj dts by (simp add: distinct_map)
next
  fix x S1
  assume x: "x \<in> set ts" and s1: "shape c S1"
    and fr: "\<forall>y. y \<notin> p ` set ts \<longrightarrow> elt S1 y = elt S y"
  have "q x \<notin> p ` set ts" "r x \<notin> p ` set ts" using sep [OF x] by auto
  then have e: "elt S1 (q x) = elt S (q x)" "elt S1 (r x) = elt S (r x)" using fr by blast+
  show "inside S1 (p x) \<and> extrapolate (p x) (q x) (r x) S1 = Some (put S1 (p x) (2 * elt S (q x) - elt S (r x)))"
    using inb [OF x] e by (simp add: extrapolate_def rd_def wr_def shape_inside_block [OF s1])
qed

lemma edge_generic:
  assumes sh: "shape c S"
    and inj: "inj_on p (set ts)" and dts: "distinct ts"
    and inb: "\<And>t. t \<in> set ts \<Longrightarrow> in_block c (p t) \<and> in_block c (q t) \<and> in_block c (r t)"
    and sep: "\<And>t t'. t \<in> set ts \<Longrightarrow> t' \<in> set ts \<Longrightarrow> q t \<noteq> p t' \<and> r t \<noteq> p t'"
    and char: "\<And>x. E x \<longleftrightarrow> x \<in> p ` set ts"
    and inw: "\<And>t. t \<in> set ts \<Longrightarrow> in1 (p t) = q t \<and> in2 (p t) = r t"
  shows "\<exists>S'. guarded G (for_loop ts (\<lambda>t. extrapolate (p t) (q t) (r t))) S = Some S' \<and> shape c S'
            \<and> (G \<longrightarrow> (\<forall>x. E x \<longrightarrow> elt S' x = 2 * elt S (in1 x) - elt S (in2 x)))
            \<and> (\<forall>y. \<not> E y \<longrightarrow> elt S' y = elt S y)"
proof (cases G)
  case False
  then show ?thesis using sh by (simp add: guarded_def)
next
  case True
  from extrapolate_loop [OF sh inj dts inb sep]
  obtain S' where S': "for_loop ts (\<lambda>t. extrapolate (p t) (q t) (r t)) S = Some S'" "shape c S'"
    "\<And>t. t \<in> set ts \<Longrightarrow> elt S' (p t) = 2 * elt S (q t) - elt S (r t)"
    "\<And>y. y \<notin> p ` set ts \<Longrightarrow> elt S' y = elt S y"
    by blast
  have "elt S' x = 2 * elt S (in1 x) - elt S (in2 x)" if "E x" for x
  proof -
    from that char obtain t where t: "t \<in> set ts" "x = p t" by auto
    then show ?thesis using S'(3) [OF t(1)] inw [OF t(1)] by simp
  qed
  moreover have "elt S' y = elt S y" if "\<not> E y" for y
    using that char S'(4) by simp
  ultimately show ?thesis using True S'(1,2) by (simp add: guarded_def)
qed

lemma edge_0_ok:
  assumes n: "3 \<le> unat (c X)" "3 \<le> unat (c Y)" "3 \<le> unat (c Z)" and sh: "shape c S"
  shows "\<exists>S'. (edge_steps nb c ! 0) S = Some S' \<and> shape c S'
            \<and> (nb LEFT \<noteq> None \<and> nb BOTTOM \<noteq> None \<longrightarrow>
                 (\<forall>x. lies_on c [LEFT, BOTTOM] x \<longrightarrow> elt S' x = 2 * elt S (inward LEFT 1 x) - elt S (inward LEFT 2 x)))
            \<and> (\<forall>y. \<not> lies_on c [LEFT, BOTTOM] y \<longrightarrow> elt S' y = elt S y)"
proof -
  have "\<exists>S'. guarded (nb LEFT \<noteq> None \<and> nb BOTTOM \<noteq> None)
               (for_loop [1..<unat (c Z) - 1] (\<lambda>t. extrapolate ((\<lambda>t. (0, 0, t)) t) ((\<lambda>t. (1, 0, t)) t) ((\<lambda>t. (2, 0, t)) t))) S = Some S'
            \<and> shape c S'
            \<and> (nb LEFT \<noteq> None \<and> nb BOTTOM \<noteq> None \<longrightarrow>
                 (\<forall>x. lies_on c [LEFT, BOTTOM] x \<longrightarrow> elt S' x = 2 * elt S (inward LEFT 1 x) - elt S (inward LEFT 2 x)))
            \<and> (\<forall>y. \<not> lies_on c [LEFT, BOTTOM] y \<longrightarrow> elt S' y = elt S y)"
  proof (rule edge_generic [OF sh])
    fix x show "lies_on c [LEFT, BOTTOM] x \<longleftrightarrow> x \<in> (\<lambda>t. (0, 0, t)) ` set [1..<unat (c Z) - 1]"
      using n by (cases x) (auto simp: lies_on_def in_block_def)
  qed (use n in \<open>auto simp: in_block_def inj_on_def\<close>)
  then show ?thesis using n by (simp add: edge_steps_def Let_def dec1 dec2 dec3 numeral_2_eq_2 numeral_3_eq_3)
qed

lemma edge_1_ok:
  assumes n: "3 \<le> unat (c X)" "3 \<le> unat (c Y)" "3 \<le> unat (c Z)" and sh: "shape c S"
  shows "\<exists>S'. (edge_steps nb c ! 1) S = Some S' \<and> shape c S'
            \<and> (nb LEFT \<noteq> None \<and> nb TOP \<noteq> None \<longrightarrow>
                 (\<forall>x. lies_on c [LEFT, TOP] x \<longrightarrow> elt S' x = 2 * elt S (inward LEFT 1 x) - elt S (inward LEFT 2 x)))
            \<and> (\<forall>y. \<not> lies_on c [LEFT, TOP] y \<longrightarrow> elt S' y = elt S y)"
proof -
  have "\<exists>S'. guarded (nb LEFT \<noteq> None \<and> nb TOP \<noteq> None)
               (for_loop [1..<unat (c Z) - 1] (\<lambda>t. extrapolate ((\<lambda>t. (0, unat (c Y) - 1, t)) t) ((\<lambda>t. (1, unat (c Y) - 1, t)) t) ((\<lambda>t. (2, unat (c Y) - 1, t)) t))) S = Some S'
            \<and> shape c S'
            \<and> (nb LEFT \<noteq> None \<and> nb TOP \<noteq> None \<longrightarrow>
                 (\<forall>x. lies_on c [LEFT, TOP] x \<longrightarrow> elt S' x = 2 * elt S (inward LEFT 1 x) - elt S (inward LEFT 2 x)))
            \<and> (\<forall>y. \<not> lies_on c [LEFT, TOP] y \<longrightarrow> elt S' y = elt S y)"
  proof (rule edge_generic [OF sh])
    fix x show "lies_on c [LEFT, TOP] x \<longleftrightarrow> x \<in> (\<lambda>t. (0, unat (c Y) - 1, t)) ` set [1..<unat (c Z) - 1]"
      using n by (cases x) (auto simp: lies_on_def in_block_def)
  qed (use n in \<open>auto simp: in_block_def inj_on_def\<close>)
  then show ?thesis using n by (simp add: edge_steps_def Let_def dec1 dec2 dec3 numeral_2_eq_2 numeral_3_eq_3)
qed

lemma edge_2_ok:
  assumes n: "3 \<le> unat (c X)" "3 \<le> unat (c Y)" "3 \<le> unat (c Z)" and sh: "shape c S"
  shows "\<exists>S'. (edge_steps nb c ! 2) S = Some S' \<and> shape c S'
            \<and> (nb LEFT \<noteq> None \<and> nb BACK \<noteq> None \<longrightarrow>
                 (\<forall>x. lies_on c [LEFT, BACK] x \<longrightarrow> elt S' x = 2 * elt S (inward LEFT 1 x) - elt S (inward LEFT 2 x)))
            \<and> (\<forall>y. \<not> lies_on c [LEFT, BACK] y \<longrightarrow> elt S' y = elt S y)"
proof -
  have "\<exists>S'. guarded (nb LEFT \<noteq> None \<and> nb BACK \<noteq> None)
               (for_loop [1..<unat (c Y) - 1] (\<lambda>t. extrapolate ((\<lambda>t. (0, t, 0)) t) ((\<lambda>t. (1, t, 0)) t) ((\<lambda>t. (2, t, 0)) t))) S = Some S'
            \<and> shape c S'
            \<and> (nb LEFT \<noteq> None \<and> nb BACK \<noteq> None \<longrightarrow>
                 (\<forall>x. lies_on c [LEFT, BACK] x \<longrightarrow> elt S' x = 2 * elt S (inward LEFT 1 x) - elt S (inward LEFT 2 x)))
            \<and> (\<forall>y. \<not> lies_on c [LEFT, BACK] y \<longrightarrow> elt S' y = elt S y)"
  proof (rule edge_generic [OF sh])
    fix x show "lies_on c [LEFT, BACK] x \<longleftrightarrow> x \<in> (\<lambda>t. (0, t, 0)) ` set [1..<unat (c Y) - 1]"
      using n by (cases x) (auto simp: lies_on_def in_block_def)
  qed (use n in \<open>auto simp: in_block_def inj_on_def\<close>)
  then show ?thesis using n by (simp add: edge_steps_def Let_def dec1 dec2 dec3 numeral_2_eq_2 numeral_3_eq_3)
qed

lemma edge_3_ok:
  assumes n: "3 \<le> unat (c X)" "3 \<le> unat (c Y)" "3 \<le> unat (c Z)" and sh: "shape c S"
  shows "\<exists>S'. (edge_steps nb c ! 3) S = Some S' \<and> shape c S'
            \<and> (nb LEFT \<noteq> None \<and> nb FRONT \<noteq> None \<longrightarrow>
                 (\<forall>x. lies_on c [LEFT, FRONT] x \<longrightarrow> elt S' x = 2 * elt S (inward LEFT 1 x) - elt S (inward LEFT 2 x)))
            \<and> (\<forall>y. \<not> lies_on c [LEFT, FRONT] y \<longrightarrow> elt S' y = elt S y)"
proof -
  have "\<exists>S'. guarded (nb LEFT \<noteq> None \<and> nb FRONT \<noteq> None)
               (for_loop [1..<unat (c Y) - 1] (\<lambda>t. extrapolate ((\<lambda>t. (0, t, unat (c Z) - 1)) t) ((\<lambda>t. (1, t, unat (c Z) - 1)) t) ((\<lambda>t. (2, t, unat (c Z) - 1)) t))) S = Some S'
            \<and> shape c S'
            \<and> (nb LEFT \<noteq> None \<and> nb FRONT \<noteq> None \<longrightarrow>
                 (\<forall>x. lies_on c [LEFT, FRONT] x \<longrightarrow> elt S' x = 2 * elt S (inward LEFT 1 x) - elt S (inward LEFT 2 x)))
            \<and> (\<forall>y. \<not> lies_on c [LEFT, FRONT] y \<longrightarrow> elt S' y = elt S y)"
  proof (rule edge_generic [OF sh])
    fix x show "lies_on c [LEFT, FRONT] x \<longleftrightarrow> x \<in> (\<lambda>t. (0, t, unat (c Z) - 1)) ` set [1..<unat (c Y) - 1]"
      using n by (cases x) (auto simp: lies_on_def in_block_def)
  qed (use n in \<open>auto simp: in_block_def inj_on_def\<close>)
  then show ?thesis using n by (simp add: edge_steps_def Let_def dec1 dec2 dec3 numeral_2_eq_2 numeral_3_eq_3)
qed

lemma edge_4_ok:
  assumes n: "3 \<le> unat (c X)" "3 \<le> unat (c Y)" "3 \<le> unat (c Z)" and sh: "shape c S"
  shows "\<exists>S'. (edge_steps nb c ! 4) S = Some S' \<and> shape c S'
            \<and> (nb RIGHT \<noteq> None \<and> nb BOTTOM \<noteq> None \<longrightarrow>
                 (\<forall>x. lies_on c [RIGHT, BOTTOM] x \<longrightarrow> elt S' x = 2 * elt S (inward RIGHT 1 x) - elt S (inward RIGHT 2 x)))
            \<and> (\<forall>y. \<not> lies_on c [RIGHT, BOTTOM] y \<longrightarrow> elt S' y = elt S y)"
proof -
  have "\<exists>S'. guarded (nb RIGHT \<noteq> None \<and> nb BOTTOM \<noteq> None)
               (for_loop [1..<unat (c Z) - 1] (\<lambda>t. extrapolate ((\<lambda>t. (unat (c X) - 1, 0, t)) t) ((\<lambda>t. (unat (c X) - 2, 0, t)) t) ((\<lambda>t. (unat (c X) - 3, 0, t)) t))) S = Some S'
            \<and> shape c S'
            \<and> (nb RIGHT \<noteq> None \<and> nb BOTTOM \<noteq> None \<longrightarrow>
                 (\<forall>x. lies_on c [RIGHT, BOTTOM] x \<longrightarrow> elt S' x = 2 * elt S (inward RIGHT 1 x) - elt S (inward RIGHT 2 x)))
            \<and> (\<forall>y. \<not> lies_on c [RIGHT, BOTTOM] y \<longrightarrow> elt S' y = elt S y)"
  proof (rule edge_generic [OF sh])
    fix x show "lies_on c [RIGHT, BOTTOM] x \<longleftrightarrow> x \<in> (\<lambda>t. (unat (c X) - 1, 0, t)) ` set [1..<unat (c Z) - 1]"
      using n by (cases x) (auto simp: lies_on_def in_block_def)
  qed (use n in \<open>auto simp: in_block_def inj_on_def\<close>)
  then show ?thesis using n by (simp add: edge_steps_def Let_def dec1 dec2 dec3 numeral_2_eq_2 numeral_3_eq_3)
qed

lemma edge_5_ok:
  assumes n: "3 \<le> unat (c X)" "3 \<le> unat (c Y)" "3 \<le> unat (c Z)" and sh: "shape c S"
  shows "\<exists>S'. (edge_steps nb c ! 5) S = Some S' \<and> shape c S'
            \<and> (nb RIGHT \<noteq> None \<and> nb TOP \<noteq> None \<longrightarrow>
                 (\<forall>x. lies_on c [RIGHT, TOP] x \<longrightarrow> elt S' x = 2 * elt S (inward RIGHT 1 x) - elt S (inward RIGHT 2 x)))
            \<and> (\<forall>y. \<not> lies_on c [RIGHT, TOP] y \<longrightarrow> elt S' y = elt S y)"
proof -
  have "\<exists>S'. guarded (nb RIGHT \<noteq> None \<and> nb TOP \<noteq> None)
               (for_loop [1..<unat (c Z) - 1] (\<lambda>t. extrapolate ((\<lambda>t. (unat (c X) - 1, unat (c Y) - 1, t)) t) ((\<lambda>t. (unat (c X) - 2, unat (c Y) - 1, t)) t) ((\<lambda>t. (unat (c X) - 3, unat (c Y) - 1, t)) t))) S = Some S'
            \<and> shape c S'
            \<and> (nb RIGHT \<noteq> None \<and> nb TOP \<noteq> None \<longrightarrow>
                 (\<forall>x. lies_on c [RIGHT, TOP] x \<longrightarrow> elt S' x = 2 * elt S (inward RIGHT 1 x) - elt S (inward RIGHT 2 x)))
            \<and> (\<forall>y. \<not> lies_on c [RIGHT, TOP] y \<longrightarrow> elt S' y = elt S y)"
  proof (rule edge_generic [OF sh])
    fix x show "lies_on c [RIGHT, TOP] x \<longleftrightarrow> x \<in> (\<lambda>t. (unat (c X) - 1, unat (c Y) - 1, t)) ` set [1..<unat (c Z) - 1]"
      using n by (cases x) (auto simp: lies_on_def in_block_def)
  qed (use n in \<open>auto simp: in_block_def inj_on_def\<close>)
  then show ?thesis using n by (simp add: edge_steps_def Let_def dec1 dec2 dec3 numeral_2_eq_2 numeral_3_eq_3)
qed

lemma edge_6_ok:
  assumes n: "3 \<le> unat (c X)" "3 \<le> unat (c Y)" "3 \<le> unat (c Z)" and sh: "shape c S"
  shows "\<exists>S'. (edge_steps nb c ! 6) S = Some S' \<and> shape c S'
            \<and> (nb RIGHT \<noteq> None \<and> nb BACK \<noteq> None \<longrightarrow>
                 (\<forall>x. lies_on c [RIGHT, BACK] x \<longrightarrow> elt S' x = 2 * elt S (inward RIGHT 1 x) - elt S (inward RIGHT 2 x)))
            \<and> (\<forall>y. \<not> lies_on c [RIGHT, BACK] y \<longrightarrow> elt S' y = elt S y)"
proof -
  have "\<exists>S'. guarded (nb RIGHT \<noteq> None \<and> nb BACK \<noteq> None)
               (for_loop [1..<unat (c Y) - 1] (\<lambda>t. extrapolate ((\<lambda>t. (unat (c X) - 1, t, 0)) t) ((\<lambda>t. (unat (c X) - 2, t, 0)) t) ((\<lambda>t. (unat (c X) - 3, t, 0)) t))) S = Some S'
            \<and> shape c S'
            \<and> (nb RIGHT \<noteq> None \<and> nb BACK \<noteq> None \<longrightarrow>
                 (\<forall>x. lies_on c [RIGHT, BACK] x \<longrightarrow> elt S' x = 2 * elt S (inward RIGHT 1 x) - elt S (inward RIGHT 2 x)))
            \<and> (\<forall>y. \<not> lies_on c [RIGHT, BACK] y \<longrightarrow> elt S' y = elt S y)"
  proof (rule edge_generic [OF sh])
    fix x show "lies_on c [RIGHT, BACK] x \<longleftrightarrow> x \<in> (\<lambda>t. (unat (c X) - 1, t, 0)) ` set [1..<unat (c Y) - 1]"
      using n by (cases x) (auto simp: lies_on_def in_block_def)
  qed (use n in \<open>auto simp: in_block_def inj_on_def\<close>)
  then show ?thesis using n by (simp add: edge_steps_def Let_def dec1 dec2 dec3 numeral_2_eq_2 numeral_3_eq_3)
qed

lemma edge_7_ok:
  assumes n: "3 \<le> unat (c X)" "3 \<le> unat (c Y)" "3 \<le> unat (c Z)" and sh: "shape c S"
  shows "\<exists>S'. (edge_steps nb c ! 7) S = Some S' \<and> shape c S'
            \<and> (nb RIGHT \<noteq> None \<and> nb FRONT \<noteq> None \<longrightarrow>
                 (\<forall>x. lies_on c [RIGHT, FRONT] x \<longrightarrow> elt S' x = 2 * elt S (inward RIGHT 1 x) - elt S (inward RIGHT 2 x)))
            \<and> (\<forall>y. \<not> lies_on c [RIGHT, FRONT] y \<longrightarrow> elt S' y = elt S y)"
proof -
  have "\<exists>S'. guarded (nb RIGHT \<noteq> None \<and> nb FRONT \<noteq> None)
               (for_loop [1..<unat (c Y) - 1] (\<lambda>t. extrapolate ((\<lambda>t. (unat (c X) - 1, t, unat (c Z) - 1)) t) ((\<lambda>t. (unat (c X) - 2, t, unat (c Z) - 1)) t) ((\<lambda>t. (unat (c X) - 3, t, unat (c Z) - 1)) t))) S = Some S'
            \<and> shape c S'
            \<and> (nb RIGHT \<noteq> None \<and> nb FRONT \<noteq> None \<longrightarrow>
                 (\<forall>x. lies_on c [RIGHT, FRONT] x \<longrightarrow> elt S' x = 2 * elt S (inward RIGHT 1 x) - elt S (inward RIGHT 2 x)))
            \<and> (\<forall>y. \<not> lies_on c [RIGHT, FRONT] y \<longrightarrow> elt S' y = elt S y)"
  proof (rule edge_generic [OF sh])
    fix x show "lies_on c [RIGHT, FRONT] x \<longleftrightarrow> x \<in> (\<lambda>t. (unat (c X) - 1, t, unat (c Z) - 1)) ` set [1..<unat (c Y) - 1]"
      using n by (cases x) (auto simp: lies_on_def in_block_def)
  qed (use n in \<open>auto simp: in_block_def inj_on_def\<close>)
  then show ?thesis using n by (simp add: edge_steps_def Let_def dec1 dec2 dec3 numeral_2_eq_2 numeral_3_eq_3)
qed

lemma edge_8_ok:
  assumes n: "3 \<le> unat (c X)" "3 \<le> unat (c Y)" "3 \<le> unat (c Z)" and sh: "shape c S"
  shows "\<exists>S'. (edge_steps nb c ! 8) S = Some S' \<and> shape c S'
            \<and> (nb BACK \<noteq> None \<and> nb BOTTOM \<noteq> None \<longrightarrow>
                 (\<forall>x. lies_on c [BACK, BOTTOM] x \<longrightarrow> elt S' x = 2 * elt S (inward BACK 1 x) - elt S (inward BACK 2 x)))
            \<and> (\<forall>y. \<not> lies_on c [BACK, BOTTOM] y \<longrightarrow> elt S' y = elt S y)"
proof -
  have "\<exists>S'. guarded (nb BACK \<noteq> None \<and> nb BOTTOM \<noteq> None)
               (for_loop [1..<unat (c X) - 1] (\<lambda>t. extrapolate ((\<lambda>t. (t, 0, 0)) t) ((\<lambda>t. (t, 0, 1)) t) ((\<lambda>t. (t, 0, 2)) t))) S = Some S'
            \<and> shape c S'
            \<and> (nb BACK \<noteq> None \<and> nb BOTTOM \<noteq> None \<longrightarrow>
                 (\<forall>x. lies_on c [BACK, BOTTOM] x \<longrightarrow> elt S' x = 2 * elt S (inward BACK 1 x) - elt S (inward BACK 2 x)))
            \<and> (\<forall>y. \<not> lies_on c [BACK, BOTTOM] y \<longrightarrow> elt S' y = elt S y)"
  proof (rule edge_generic [OF sh])
    fix x show "lies_on c [BACK, BOTTOM] x \<longleftrightarrow> x \<in> (\<lambda>t. (t, 0, 0)) ` set [1..<unat (c X) - 1]"
      using n by (cases x) (auto simp: lies_on_def in_block_def)
  qed (use n in \<open>auto simp: in_block_def inj_on_def\<close>)
  then show ?thesis using n by (simp add: edge_steps_def Let_def dec1 dec2 dec3 numeral_2_eq_2 numeral_3_eq_3)
qed

lemma edge_9_ok:
  assumes n: "3 \<le> unat (c X)" "3 \<le> unat (c Y)" "3 \<le> unat (c Z)" and sh: "shape c S"
  shows "\<exists>S'. (edge_steps nb c ! 9) S = Some S' \<and> shape c S'
            \<and> (nb BACK \<noteq> None \<and> nb TOP \<noteq> None \<longrightarrow>
                 (\<forall>x. lies_on c [BACK, TOP] x \<longrightarrow> elt S' x = 2 * elt S (inward BACK 1 x) - elt S (inward BACK 2 x)))
            \<and> (\<forall>y. \<not> lies_on c [BACK, TOP] y \<longrightarrow> elt S' y = elt S y)"
proof -
  have "\<exists>S'. guarded (nb BACK \<noteq> None \<and> nb TOP \<noteq> None)
               (for_loop [1..<unat (c X) - 1] (\<lambda>t. extrapolate ((\<lambda>t. (t, unat (c Y) - 1, 0)) t) ((\<lambda>t. (t, unat (c Y) - 1, 1)) t) ((\<lambda>t. (t, unat (c Y) - 1, 2)) t))) S = Some S'
            \<and> shape c S'
            \<and> (nb BACK \<noteq> None \<and> nb TOP \<noteq> None \<longrightarrow>
                 (\<forall>x. lies_on c [BACK, TOP] x \<longrightarrow> elt S' x = 2 * elt S (inward BACK 1 x) - elt S (inward BACK 2 x)))
            \<and> (\<forall>y. \<not> lies_on c [BACK, TOP] y \<longrightarrow> elt S' y = elt S y)"
  proof (rule edge_generic [OF sh])
    fix x show "lies_on c [BACK, TOP] x \<longleftrightarrow> x \<in> (\<lambda>t. (t, unat (c Y) - 1, 0)) ` set [1..<unat (c X) - 1]"
      using n by (cases x) (auto simp: lies_on_def in_block_def)
  qed (use n in \<open>auto simp: in_block_def inj_on_def\<close>)
  then show ?thesis using n by (simp add: edge_steps_def Let_def dec1 dec2 dec3 numeral_2_eq_2 numeral_3_eq_3)
qed

lemma edge_10_ok:
  assumes n: "3 \<le> unat (c X)" "3 \<le> unat (c Y)" "3 \<le> unat (c Z)" and sh: "shape c S"
  shows "\<exists>S'. (edge_steps nb c ! 10) S = Some S' \<and> shape c S'
            \<and> (nb FRONT \<noteq> None \<and> nb BOTTOM \<noteq> None \<longrightarrow>
                 (\<forall>x. lies_on c [FRONT, BOTTOM] x \<longrightarrow> elt S' x = 2 * elt S (inward FRONT 1 x) - elt S (inward FRONT 2 x)))
            \<and> (\<forall>y. \<not> lies_on c [FRONT, BOTTOM] y \<longrightarrow> elt S' y = elt S y)"
proof -
  have "\<exists>S'. guarded (nb FRONT \<noteq> None \<and> nb BOTTOM \<noteq> None)
               (for_loop [1..<unat (c X) - 1] (\<lambda>t. extrapolate ((\<lambda>t. (t, 0, unat (c Z) - 1)) t) ((\<lambda>t. (t, 0, unat (c Z) - 2)) t) ((\<lambda>t. (t, 0, unat (c Z) - 3)) t))) S = Some S'
            \<and> shape c S'
            \<and> (nb FRONT \<noteq> None \<and> nb BOTTOM \<noteq> None \<longrightarrow>
                 (\<forall>x. lies_on c [FRONT, BOTTOM] x \<longrightarrow> elt S' x = 2 * elt S (inward FRONT 1 x) - elt S (inward FRONT 2 x)))
            \<and> (\<forall>y. \<not> lies_on c [FRONT, BOTTOM] y \<longrightarrow> elt S' y = elt S y)"
  proof (rule edge_generic [OF sh])
    fix x show "lies_on c [FRONT, BOTTOM] x \<longleftrightarrow> x \<in> (\<lambda>t. (t, 0, unat (c Z) - 1)) ` set [1..<unat (c X) - 1]"
      using n by (cases x) (auto simp: lies_on_def in_block_def)
  qed (use n in \<open>auto simp: in_block_def inj_on_def\<close>)
  then show ?thesis using n by (simp add: edge_steps_def Let_def dec1 dec2 dec3 numeral_2_eq_2 numeral_3_eq_3)
qed

lemma edge_11_ok:
  assumes n: "3 \<le> unat (c X)" "3 \<le> unat (c Y)" "3 \<le> unat (c Z)" and sh: "shape c S"
  shows "\<exists>S'. (edge_steps nb c ! 11) S = Some S' \<and> shape c S'
            \<and> (nb FRONT \<noteq> None \<and> nb TOP \<noteq> None \<longrightarrow>
                 (\<forall>x. lies_on c [FRONT, TOP] x \<longrightarrow> elt S' x = 2 * elt S (inward FRONT 1 x) - elt S (inward FRONT 2 x)))
            \<and> (\<forall>y. \<not> lies_on c [FRONT, TOP] y \<longrightarrow> elt S' y = elt S y)"
proof -
  have "\<exists>S'. guarded (nb FRONT \<noteq> None \<and> nb TOP \<noteq> None)
               (for_loop [1..<unat (c X) - 1] (\<lambda>t. extrapolate ((\<lambda>t. (t, unat (c Y) - 1, unat (c Z) - 1)) t) ((\<lambda>t. (t, unat (c Y) - 1, unat (c Z) - 2)) t) ((\<lambda>t. (t, unat (c Y) - 1, unat (c Z) - 3)) t))) S = Some S'
            \<and> shape c S'
            \<and> (nb FRONT \<noteq> None \<and> nb TOP \<noteq> None \<longrightarrow>
                 (\<forall>x. lies_on c [FRONT, TOP] x \<longrightarrow> elt S' x = 2 * elt S (inward FRONT 1 x) - elt S (inward FRONT 2 x)))
            \<and> (\<forall>y. \<not> lies_on c [FRONT, TOP] y \<longrightarrow> elt S' y = elt S y)"
  proof (rule edge_generic [OF sh])
    fix x show "lies_on c [FRONT, TOP] x \<longleftrightarrow> x \<in> (\<lambda>t. (t, unat (c Y) - 1, unat (c Z) - 1)) ` set [1..<unat (c X) - 1]"
      using n by (cases x) (auto simp: lies_on_def in_block_def)
  qed (use n in \<open>auto simp: in_block_def inj_on_def\<close>)
  then show ?thesis using n by (simp add: edge_steps_def Let_def dec1 dec2 dec3 numeral_2_eq_2 numeral_3_eq_3)
qed

lemma corner_generic:
  assumes sh: "shape c S"
    and inb: "in_block c x \<and> in_block c a \<and> in_block c b \<and> in_block c d"
    and char: "\<And>y. E y \<longleftrightarrow> y = x"
    and inw: "in1 x = a \<and> in2 x = b \<and> in3 x = d"
  shows "\<exists>S'. guarded G (average x a b d) S = Some S' \<and> shape c S'
            \<and> (G \<longrightarrow> (\<forall>y. E y \<longrightarrow> elt S' y = 1 / 3 * (elt S (in1 y) + elt S (in2 y) + elt S (in3 y))))
            \<and> (\<forall>y. \<not> E y \<longrightarrow> elt S' y = elt S y)"
proof (cases G)
  case False
  then show ?thesis using sh by (simp add: guarded_def)
next
  case True
  have "average x a b d S = Some (put S x (1 / 3 * (elt S a + elt S b + elt S d)))"
    using inb by (simp add: average_def rd_def wr_def shape_inside_block [OF sh])
  moreover have "inside S x" using inb by (simp add: shape_inside_block [OF sh])
  ultimately show ?thesis
    using True sh inw char by (simp add: guarded_def shape_put elt_put)
qed

lemma corner_0_ok:
  assumes n: "3 \<le> unat (c X)" "3 \<le> unat (c Y)" "3 \<le> unat (c Z)" and sh: "shape c S"
  shows "\<exists>S'. (corner_steps nb c ! 0) S = Some S' \<and> shape c S'
            \<and> (nb LEFT \<noteq> None \<and> nb BOTTOM \<noteq> None \<and> nb BACK \<noteq> None \<longrightarrow>
                 (\<forall>x. lies_on c [LEFT, BOTTOM, BACK] x \<longrightarrow>
                    elt S' x = 1 / 3 * (elt S (inward LEFT 1 x) + elt S (inward BOTTOM 1 x) + elt S (inward BACK 1 x))))
            \<and> (\<forall>y. \<not> lies_on c [LEFT, BOTTOM, BACK] y \<longrightarrow> elt S' y = elt S y)"
proof -
  have "\<exists>S'. guarded (nb LEFT \<noteq> None \<and> nb BOTTOM \<noteq> None \<and> nb BACK \<noteq> None)
               (average (0, 0, 0) (1, 0, 0) (0, 1, 0) (0, 0, 1)) S = Some S'
            \<and> shape c S'
            \<and> (nb LEFT \<noteq> None \<and> nb BOTTOM \<noteq> None \<and> nb BACK \<noteq> None \<longrightarrow>
                 (\<forall>x. lies_on c [LEFT, BOTTOM, BACK] x \<longrightarrow>
                    elt S' x = 1 / 3 * (elt S (inward LEFT 1 x) + elt S (inward BOTTOM 1 x) + elt S (inward BACK 1 x))))
            \<and> (\<forall>y. \<not> lies_on c [LEFT, BOTTOM, BACK] y \<longrightarrow> elt S' y = elt S y)"
  proof (rule corner_generic [OF sh])
    fix y show "lies_on c [LEFT, BOTTOM, BACK] y \<longleftrightarrow> y = (0, 0, 0)"
      using n by (cases y) (auto simp: lies_on_def in_block_def)
  qed (use n in \<open>auto simp: in_block_def\<close>)
  then show ?thesis using n by (simp add: corner_steps_def Let_def dec1 dec2 numeral_2_eq_2)
qed

lemma corner_1_ok:
  assumes n: "3 \<le> unat (c X)" "3 \<le> unat (c Y)" "3 \<le> unat (c Z)" and sh: "shape c S"
  shows "\<exists>S'. (corner_steps nb c ! 1) S = Some S' \<and> shape c S'
            \<and> (nb LEFT \<noteq> None \<and> nb BOTTOM \<noteq> None \<and> nb FRONT \<noteq> None \<longrightarrow>
                 (\<forall>x. lies_on c [LEFT, BOTTOM, FRONT] x \<longrightarrow>
                    elt S' x = 1 / 3 * (elt S (inward LEFT 1 x) + elt S (inward BOTTOM 1 x) + elt S (inward FRONT 1 x))))
            \<and> (\<forall>y. \<not> lies_on c [LEFT, BOTTOM, FRONT] y \<longrightarrow> elt S' y = elt S y)"
proof -
  have "\<exists>S'. guarded (nb LEFT \<noteq> None \<and> nb BOTTOM \<noteq> None \<and> nb FRONT \<noteq> None)
               (average (0, 0, unat (c Z) - 1) (1, 0, unat (c Z) - 1) (0, 1, unat (c Z) - 1) (0, 0, unat (c Z) - 2)) S = Some S'
            \<and> shape c S'
            \<and> (nb LEFT \<noteq> None \<and> nb BOTTOM \<noteq> None \<and> nb FRONT \<noteq> None \<longrightarrow>
                 (\<forall>x. lies_on c [LEFT, BOTTOM, FRONT] x \<longrightarrow>
                    elt S' x = 1 / 3 * (elt S (inward LEFT 1 x) + elt S (inward BOTTOM 1 x) + elt S (inward FRONT 1 x))))
            \<and> (\<forall>y. \<not> lies_on c [LEFT, BOTTOM, FRONT] y \<longrightarrow> elt S' y = elt S y)"
  proof (rule corner_generic [OF sh])
    fix y show "lies_on c [LEFT, BOTTOM, FRONT] y \<longleftrightarrow> y = (0, 0, unat (c Z) - 1)"
      using n by (cases y) (auto simp: lies_on_def in_block_def)
  qed (use n in \<open>auto simp: in_block_def\<close>)
  then show ?thesis using n by (simp add: corner_steps_def Let_def dec1 dec2 numeral_2_eq_2)
qed

lemma corner_2_ok:
  assumes n: "3 \<le> unat (c X)" "3 \<le> unat (c Y)" "3 \<le> unat (c Z)" and sh: "shape c S"
  shows "\<exists>S'. (corner_steps nb c ! 2) S = Some S' \<and> shape c S'
            \<and> (nb LEFT \<noteq> None \<and> nb TOP \<noteq> None \<and> nb BACK \<noteq> None \<longrightarrow>
                 (\<forall>x. lies_on c [LEFT, TOP, BACK] x \<longrightarrow>
                    elt S' x = 1 / 3 * (elt S (inward LEFT 1 x) + elt S (inward TOP 1 x) + elt S (inward BACK 1 x))))
            \<and> (\<forall>y. \<not> lies_on c [LEFT, TOP, BACK] y \<longrightarrow> elt S' y = elt S y)"
proof -
  have "\<exists>S'. guarded (nb LEFT \<noteq> None \<and> nb TOP \<noteq> None \<and> nb BACK \<noteq> None)
               (average (0, unat (c Y) - 1, 0) (1, unat (c Y) - 1, 0) (0, unat (c Y) - 2, 0) (0, unat (c Y) - 1, 1)) S = Some S'
            \<and> shape c S'
            \<and> (nb LEFT \<noteq> None \<and> nb TOP \<noteq> None \<and> nb BACK \<noteq> None \<longrightarrow>
                 (\<forall>x. lies_on c [LEFT, TOP, BACK] x \<longrightarrow>
                    elt S' x = 1 / 3 * (elt S (inward LEFT 1 x) + elt S (inward TOP 1 x) + elt S (inward BACK 1 x))))
            \<and> (\<forall>y. \<not> lies_on c [LEFT, TOP, BACK] y \<longrightarrow> elt S' y = elt S y)"
  proof (rule corner_generic [OF sh])
    fix y show "lies_on c [LEFT, TOP, BACK] y \<longleftrightarrow> y = (0, unat (c Y) - 1, 0)"
      using n by (cases y) (auto simp: lies_on_def in_block_def)
  qed (use n in \<open>auto simp: in_block_def\<close>)
  then show ?thesis using n by (simp add: corner_steps_def Let_def dec1 dec2 numeral_2_eq_2)
qed

lemma corner_3_ok:
  assumes n: "3 \<le> unat (c X)" "3 \<le> unat (c Y)" "3 \<le> unat (c Z)" and sh: "shape c S"
  shows "\<exists>S'. (corner_steps nb c ! 3) S = Some S' \<and> shape c S'
            \<and> (nb LEFT \<noteq> None \<and> nb TOP \<noteq> None \<and> nb FRONT \<noteq> None \<longrightarrow>
                 (\<forall>x. lies_on c [LEFT, TOP, FRONT] x \<longrightarrow>
                    elt S' x = 1 / 3 * (elt S (inward LEFT 1 x) + elt S (inward TOP 1 x) + elt S (inward FRONT 1 x))))
            \<and> (\<forall>y. \<not> lies_on c [LEFT, TOP, FRONT] y \<longrightarrow> elt S' y = elt S y)"
proof -
  have "\<exists>S'. guarded (nb LEFT \<noteq> None \<and> nb TOP \<noteq> None \<and> nb FRONT \<noteq> None)
               (average (0, unat (c Y) - 1, unat (c Z) - 1) (1, unat (c Y) - 1, unat (c Z) - 1) (0, unat (c Y) - 2, unat (c Z) - 1) (0, unat (c Y) - 1, unat (c Z) - 2)) S = Some S'
            \<and> shape c S'
            \<and> (nb LEFT \<noteq> None \<and> nb TOP \<noteq> None \<and> nb FRONT \<noteq> None \<longrightarrow>
                 (\<forall>x. lies_on c [LEFT, TOP, FRONT] x \<longrightarrow>
                    elt S' x = 1 / 3 * (elt S (inward LEFT 1 x) + elt S (inward TOP 1 x) + elt S (inward FRONT 1 x))))
            \<and> (\<forall>y. \<not> lies_on c [LEFT, TOP, FRONT] y \<longrightarrow> elt S' y = elt S y)"
  proof (rule corner_generic [OF sh])
    fix y show "lies_on c [LEFT, TOP, FRONT] y \<longleftrightarrow> y = (0, unat (c Y) - 1, unat (c Z) - 1)"
      using n by (cases y) (auto simp: lies_on_def in_block_def)
  qed (use n in \<open>auto simp: in_block_def\<close>)
  then show ?thesis using n by (simp add: corner_steps_def Let_def dec1 dec2 numeral_2_eq_2)
qed

lemma corner_4_ok:
  assumes n: "3 \<le> unat (c X)" "3 \<le> unat (c Y)" "3 \<le> unat (c Z)" and sh: "shape c S"
  shows "\<exists>S'. (corner_steps nb c ! 4) S = Some S' \<and> shape c S'
            \<and> (nb RIGHT \<noteq> None \<and> nb BOTTOM \<noteq> None \<and> nb BACK \<noteq> None \<longrightarrow>
                 (\<forall>x. lies_on c [RIGHT, BOTTOM, BACK] x \<longrightarrow>
                    elt S' x = 1 / 3 * (elt S (inward RIGHT 1 x) + elt S (inward BOTTOM 1 x) + elt S (inward BACK 1 x))))
            \<and> (\<forall>y. \<not> lies_on c [RIGHT, BOTTOM, BACK] y \<longrightarrow> elt S' y = elt S y)"
proof -
  have "\<exists>S'. guarded (nb RIGHT \<noteq> None \<and> nb BOTTOM \<noteq> None \<and> nb BACK \<noteq> None)
               (average (unat (c X) - 1, 0, 0) (unat (c X) - 2, 0, 0) (unat (c X) - 1, 1, 0) (unat (c X) - 1, 0, 1)) S = Some S'
            \<and> shape c S'
            \<and> (nb RIGHT \<noteq> None \<and> nb BOTTOM \<noteq> None \<and> nb BACK \<noteq> None \<longrightarrow>
                 (\<forall>x. lies_on c [RIGHT, BOTTOM, BACK] x \<longrightarrow>
                    elt S' x = 1 / 3 * (elt S (inward RIGHT 1 x) + elt S (inward BOTTOM 1 x) + elt S (inward BACK 1 x))))
            \<and> (\<forall>y. \<not> lies_on c [RIGHT, BOTTOM, BACK] y \<longrightarrow> elt S' y = elt S y)"
  proof (rule corner_generic [OF sh])
    fix y show "lies_on c [RIGHT, BOTTOM, BACK] y \<longleftrightarrow> y = (unat (c X) - 1, 0, 0)"
      using n by (cases y) (auto simp: lies_on_def in_block_def)
  qed (use n in \<open>auto simp: in_block_def\<close>)
  then show ?thesis using n by (simp add: corner_steps_def Let_def dec1 dec2 numeral_2_eq_2)
qed

lemma corner_5_ok:
  assumes n: "3 \<le> unat (c X)" "3 \<le> unat (c Y)" "3 \<le> unat (c Z)" and sh: "shape c S"
  shows "\<exists>S'. (corner_steps nb c ! 5) S = Some S' \<and> shape c S'
            \<and> (nb RIGHT \<noteq> None \<and> nb BOTTOM \<noteq> None \<and> nb FRONT \<noteq> None \<longrightarrow>
                 (\<forall>x. lies_on c [RIGHT, BOTTOM, FRONT] x \<longrightarrow>
                    elt S' x = 1 / 3 * (elt S (inward RIGHT 1 x) + elt S (inward BOTTOM 1 x) + elt S (inward FRONT 1 x))))
            \<and> (\<forall>y. \<not> lies_on c [RIGHT, BOTTOM, FRONT] y \<longrightarrow> elt S' y = elt S y)"
proof -
  have "\<exists>S'. guarded (nb RIGHT \<noteq> None \<and> nb BOTTOM \<noteq> None \<and> nb FRONT \<noteq> None)
               (average (unat (c X) - 1, 0, unat (c Z) - 1) (unat (c X) - 2, 0, unat (c Z) - 1) (unat (c X) - 1, 1, unat (c Z) - 1) (unat (c X) - 1, 0, unat (c Z) - 2)) S = Some S'
            \<and> shape c S'
            \<and> (nb RIGHT \<noteq> None \<and> nb BOTTOM \<noteq> None \<and> nb FRONT \<noteq> None \<longrightarrow>
                 (\<forall>x. lies_on c [RIGHT, BOTTOM, FRONT] x \<longrightarrow>
                    elt S' x = 1 / 3 * (elt S (inward RIGHT 1 x) + elt S (inward BOTTOM 1 x) + elt S (inward FRONT 1 x))))
            \<and> (\<forall>y. \<not> lies_on c [RIGHT, BOTTOM, FRONT] y \<longrightarrow> elt S' y = elt S y)"
  proof (rule corner_generic [OF sh])
    fix y show "lies_on c [RIGHT, BOTTOM, FRONT] y \<longleftrightarrow> y = (unat (c X) - 1, 0, unat (c Z) - 1)"
      using n by (cases y) (auto simp: lies_on_def in_block_def)
  qed (use n in \<open>auto simp: in_block_def\<close>)
  then show ?thesis using n by (simp add: corner_steps_def Let_def dec1 dec2 numeral_2_eq_2)
qed

lemma corner_6_ok:
  assumes n: "3 \<le> unat (c X)" "3 \<le> unat (c Y)" "3 \<le> unat (c Z)" and sh: "shape c S"
  shows "\<exists>S'. (corner_steps nb c ! 6) S = Some S' \<and> shape c S'
            \<and> (nb RIGHT \<noteq> None \<and> nb TOP \<noteq> None \<and> nb BACK \<noteq> None \<longrightarrow>
                 (\<forall>x. lies_on c [RIGHT, TOP, BACK] x \<longrightarrow>
                    elt S' x = 1 / 3 * (elt S (inward RIGHT 1 x) + elt S (inward TOP 1 x) + elt S (inward BACK 1 x))))
            \<and> (\<forall>y. \<not> lies_on c [RIGHT, TOP, BACK] y \<longrightarrow> elt S' y = elt S y)"
proof -
  have "\<exists>S'. guarded (nb RIGHT \<noteq> None \<and> nb TOP \<noteq> None \<and> nb BACK \<noteq> None)
               (average (unat (c X) - 1, unat (c Y) - 1, 0) (unat (c X) - 2, unat (c Y) - 1, 0) (unat (c X) - 1, unat (c Y) - 2, 0) (unat (c X) - 1, unat (c Y) - 1, 1)) S = Some S'
            \<and> shape c S'
            \<and> (nb RIGHT \<noteq> None \<and> nb TOP \<noteq> None \<and> nb BACK \<noteq> None \<longrightarrow>
                 (\<forall>x. lies_on c [RIGHT, TOP, BACK] x \<longrightarrow>
                    elt S' x = 1 / 3 * (elt S (inward RIGHT 1 x) + elt S (inward TOP 1 x) + elt S (inward BACK 1 x))))
            \<and> (\<forall>y. \<not> lies_on c [RIGHT, TOP, BACK] y \<longrightarrow> elt S' y = elt S y)"
  proof (rule corner_generic [OF sh])
    fix y show "lies_on c [RIGHT, TOP, BACK] y \<longleftrightarrow> y = (unat (c X) - 1, unat (c Y) - 1, 0)"
      using n by (cases y) (auto simp: lies_on_def in_block_def)
  qed (use n in \<open>auto simp: in_block_def\<close>)
  then show ?thesis using n by (simp add: corner_steps_def Let_def dec1 dec2 numeral_2_eq_2)
qed

lemma corner_7_ok:
  assumes n: "3 \<le> unat (c X)" "3 \<le> unat (c Y)" "3 \<le> unat (c Z)" and sh: "shape c S"
  shows "\<exists>S'. (corner_steps nb c ! 7) S = Some S' \<and> shape c S'
            \<and> (nb RIGHT \<noteq> None \<and> nb TOP \<noteq> None \<and> nb FRONT \<noteq> None \<longrightarrow>
                 (\<forall>x. lies_on c [RIGHT, TOP, FRONT] x \<longrightarrow>
                    elt S' x = 1 / 3 * (elt S (inward RIGHT 1 x) + elt S (inward TOP 1 x) + elt S (inward FRONT 1 x))))
            \<and> (\<forall>y. \<not> lies_on c [RIGHT, TOP, FRONT] y \<longrightarrow> elt S' y = elt S y)"
proof -
  have "\<exists>S'. guarded (nb RIGHT \<noteq> None \<and> nb TOP \<noteq> None \<and> nb FRONT \<noteq> None)
               (average (unat (c X) - 1, unat (c Y) - 1, unat (c Z) - 1) (unat (c X) - 2, unat (c Y) - 1, unat (c Z) - 1) (unat (c X) - 1, unat (c Y) - 2, unat (c Z) - 1) (unat (c X) - 1, unat (c Y) - 1, unat (c Z) - 2)) S = Some S'
            \<and> shape c S'
            \<and> (nb RIGHT \<noteq> None \<and> nb TOP \<noteq> None \<and> nb FRONT \<noteq> None \<longrightarrow>
                 (\<forall>x. lies_on c [RIGHT, TOP, FRONT] x \<longrightarrow>
                    elt S' x = 1 / 3 * (elt S (inward RIGHT 1 x) + elt S (inward TOP 1 x) + elt S (inward FRONT 1 x))))
            \<and> (\<forall>y. \<not> lies_on c [RIGHT, TOP, FRONT] y \<longrightarrow> elt S' y = elt S y)"
  proof (rule corner_generic [OF sh])
    fix y show "lies_on c [RIGHT, TOP, FRONT] y \<longleftrightarrow> y = (unat (c X) - 1, unat (c Y) - 1, unat (c Z) - 1)"
      using n by (cases y) (auto simp: lies_on_def in_block_def)
  qed (use n in \<open>auto simp: in_block_def\<close>)
  then show ?thesis using n by (simp add: corner_steps_def Let_def dec1 dec2 numeral_2_eq_2)
qed

lemma length_steps:
  "length (face_steps nb c D T0 rb) = 6" "length (edge_steps nb c) = 12" "length (corner_steps nb c) = 8"
  by (simp_all add: face_steps_def edge_steps_def corner_steps_def)

lemma boundary_steps_nth:
  "n < 6 \<Longrightarrow> boundary_steps nb c D T0 rb ! n = face_steps nb c D T0 rb ! n"
  "n < 12 \<Longrightarrow> boundary_steps nb c D T0 rb ! (6 + n) = edge_steps nb c ! n"
  "n < 8 \<Longrightarrow> boundary_steps nb c D T0 rb ! (18 + n) = corner_steps nb c ! n"
  by (simp_all add: boundary_steps_def nth_append length_steps)

lemma edge_pairs_complete:
  assumes n: "3 \<le> unat (c X)" "3 \<le> unat (c Y)" "3 \<le> unat (c Z)"
    and "d1 \<noteq> d2" and "lies_on c [d1, d2] x"
  shows "(d1, d2) \<in> set edge_pairs \<or> (d2, d1) \<in> set edge_pairs"
  using assms by (cases x; cases d1; cases d2) (auto simp: lies_on_def edge_pairs_def)

lemma less_12_cases:
  "(m::nat) < 12 \<Longrightarrow> m = 0 \<or> m = 1 \<or> m = 2 \<or> m = 3 \<or> m = 4 \<or> m = 5 \<or> m = 6 \<or> m = 7
     \<or> m = 8 \<or> m = 9 \<or> m = 10 \<or> m = 11"
  by presburger

lemma less_8_cases:
  "(m::nat) < 8 \<Longrightarrow> m = 0 \<or> m = 1 \<or> m = 2 \<or> m = 3 \<or> m = 4 \<or> m = 5 \<or> m = 6 \<or> m = 7"
  by presburger

lemma edge_steps_ok:
  assumes n: "3 \<le> unat (c X)" "3 \<le> unat (c Y)" "3 \<le> unat (c Z)" and sh: "shape c S"
    and m: "m < 12"
  shows "\<exists>S'. (edge_steps nb c ! m) S = Some S' \<and> shape c S'
            \<and> (nb (fst (edge_pairs ! m)) \<noteq> None \<and> nb (snd (edge_pairs ! m)) \<noteq> None \<longrightarrow>
                 (\<forall>x. lies_on c [fst (edge_pairs ! m), snd (edge_pairs ! m)] x \<longrightarrow>
                    elt S' x = 2 * elt S (inward (fst (edge_pairs ! m)) 1 x)
                               - elt S (inward (fst (edge_pairs ! m)) 2 x)))
            \<and> (\<forall>y. \<not> lies_on c [fst (edge_pairs ! m), snd (edge_pairs ! m)] y \<longrightarrow> elt S' y = elt S y)"
proof -
  from m consider "m = 0" | "m = 1" | "m = 2" | "m = 3" | "m = 4" | "m = 5" | "m = 6" | "m = 7"
    | "m = 8" | "m = 9" | "m = 10" | "m = 11"
    using less_12_cases by blast
  then show ?thesis
  proof cases
    case 1
    show ?thesis unfolding 1 using edge_0_ok [OF n sh, of nb] by (simp add: edge_pairs_def)
  next
    case 2
    show ?thesis unfolding 2 using edge_1_ok [OF n sh, of nb] by (simp add: edge_pairs_def)
  next
    case 3
    show ?thesis unfolding 3 using edge_2_ok [OF n sh, of nb] by (simp add: edge_pairs_def)
  next
    case 4
    show ?thesis unfolding 4 using edge_3_ok [OF n sh, of nb] by (simp add: edge_pairs_def)
  next
    case 5
    show ?thesis unfolding 5 using edge_4_ok [OF n sh, of nb] by (simp add: edge_pairs_def)
  next
    case 6
    show ?thesis unfolding 6 using edge_5_ok [OF n sh, of nb] by (simp add: edge_pairs_def)
  next
    case 7
    show ?thesis unfolding 7 using edge_6_ok [OF n sh, of nb] by (simp add: edge_pairs_def)
  next
    case 8
    show ?thesis unfolding 8 using edge_7_ok [OF n sh, of nb] by (simp add: edge_pairs_def)
  next
    case 9
    show ?thesis unfolding 9 using edge_8_ok [OF n sh, of nb] by (simp add: edge_pairs_def)
  next
    case 10
    show ?thesis unfolding 10 using edge_9_ok [OF n sh, of nb] by (simp add: edge_pairs_def)
  next
    case 11
    show ?thesis unfolding 11 using edge_10_ok [OF n sh, of nb] by (simp add: edge_pairs_def)
  next
    case 12
    show ?thesis unfolding 12 using edge_11_ok [OF n sh, of nb] by (simp add: edge_pairs_def)
  qed
qed

lemma corner_steps_ok:
  assumes n: "3 \<le> unat (c X)" "3 \<le> unat (c Y)" "3 \<le> unat (c Z)" and sh: "shape c S"
    and m: "m < 8"
  shows "\<exists>S'. (corner_steps nb c ! m) S = Some S' \<and> shape c S'
            \<and> (nb (fst (corner_triples ! m)) \<noteq> None \<and> nb (fst (snd (corner_triples ! m))) \<noteq> None
                 \<and> nb (snd (snd (corner_triples ! m))) \<noteq> None \<longrightarrow>
                 (\<forall>x. lies_on c [fst (corner_triples ! m), fst (snd (corner_triples ! m)), snd (snd (corner_triples ! m))] x \<longrightarrow>
                    elt S' x = 1 / 3 * (elt S (inward (fst (corner_triples ! m)) 1 x)
                                        + elt S (inward (fst (snd (corner_triples ! m))) 1 x)
                                        + elt S (inward (snd (snd (corner_triples ! m))) 1 x))))
            \<and> (\<forall>y. \<not> lies_on c [fst (corner_triples ! m), fst (snd (corner_triples ! m)), snd (snd (corner_triples ! m))] y
                   \<longrightarrow> elt S' y = elt S y)"
proof -
  from m consider "m = 0" | "m = 1" | "m = 2" | "m = 3" | "m = 4" | "m = 5" | "m = 6" | "m = 7"
    using less_8_cases by blast
  then show ?thesis
  proof cases
    case 1
    show ?thesis unfolding 1 using corner_0_ok [OF n sh, of nb] by (simp add: corner_triples_def)
  next
    case 2
    show ?thesis unfolding 2 using corner_1_ok [OF n sh, of nb] by (simp add: corner_triples_def)
  next
    case 3
    show ?thesis unfolding 3 using corner_2_ok [OF n sh, of nb] by (simp add: corner_triples_def)
  next
    case 4
    show ?thesis unfolding 4 using corner_3_ok [OF n sh, of nb] by (simp add: corner_triples_def)
  next
    case 5
    show ?thesis unfolding 5 using corner_4_ok [OF n sh, of nb] by (simp add: corner_triples_def)
  next
    case 6
    show ?thesis unfolding 6 using corner_5_ok [OF n sh, of nb] by (simp add: corner_triples_def)
  next
    case 7
    show ?thesis unfolding 7 using corner_6_ok [OF n sh, of nb] by (simp add: corner_triples_def)
  next
    case 8
    show ?thesis unfolding 8 using corner_7_ok [OF n sh, of nb] by (simp add: corner_triples_def)
  qed
qed

lemma less_6_cases:
  "(m::nat) < 6 \<Longrightarrow> m = 0 \<or> m = 1 \<or> m = 2 \<or> m = 3 \<or> m = 4 \<or> m = 5"
  by presburger

lemma guarded_ok:
  assumes "shape c S"
    and "G \<Longrightarrow> \<exists>S'. f S = Some S' \<and> shape c S' \<and> (\<forall>y. \<not> W y \<longrightarrow> elt S' y = elt S y)"
  shows "\<exists>S'. guarded G f S = Some S' \<and> shape c S' \<and> (\<forall>y. \<not> W y \<longrightarrow> elt S' y = elt S y)"
  using assms by (cases G) (simp_all add: guarded_def)

lemma face_steps_ok:
  assumes n: "3 \<le> unat (c X)" "3 \<le> unat (c Y)" "3 \<le> unat (c Z)"
    and shT0: "shape c T0" and sh: "shape c S"
    and halo: "\<And>d. nb d \<noteq> None \<Longrightarrow>
                 (unat (c (fst (transverse d))) - 2) * (unat (c (snd (transverse d))) - 2) \<le> length (rb d)"
    and m: "m < 6"
  shows "\<exists>S'. (face_steps nb c D T0 rb ! m) S = Some S' \<and> shape c S'
            \<and> (\<forall>y. \<not> on_face c ([LEFT, RIGHT, BOTTOM, TOP, BACK, FRONT] ! m) y \<longrightarrow> elt S' y = elt S y)"
proof -
  from m consider "m = 0" | "m = 1" | "m = 2" | "m = 3" | "m = 4" | "m = 5"
    using less_6_cases by blast
  then show ?thesis
  proof cases
    case 1
    have "\<exists>S'. guarded (nb LEFT \<noteq> None) (face_block (for_loop [1..<unat (c Y - 1)] (\<lambda>j.
                  for_loop [1..<unat (c Z - 1)] (\<lambda>k. face_left D T0 (rb LEFT) 0 j k)))) S = Some S'
            \<and> shape c S' \<and> (\<forall>y. \<not> on_face c LEFT y \<longrightarrow> elt S' y = elt S y)"
    proof (rule guarded_ok [OF sh])
      assume "nb LEFT \<noteq> None"
      then show "\<exists>S'. face_block (for_loop [1..<unat (c Y - 1)] (\<lambda>j.
                  for_loop [1..<unat (c Z - 1)] (\<lambda>k. face_left D T0 (rb LEFT) 0 j k))) S = Some S'
            \<and> shape c S' \<and> (\<forall>y. \<not> on_face c LEFT y \<longrightarrow> elt S' y = elt S y)"
        using face_left_ok [OF n shT0 sh, of "rb LEFT" D] halo [of LEFT] by simp
    qed
    then show ?thesis unfolding 1 by (simp add: face_steps_def)
  next
    case 2
    have "\<exists>S'. guarded (nb RIGHT \<noteq> None) (face_block (for_loop [1..<unat (c Y - 1)] (\<lambda>j.
                  for_loop [1..<unat (c Z - 1)] (\<lambda>k. face_right D T0 (rb RIGHT) (c X - 1) j k)))) S = Some S'
            \<and> shape c S' \<and> (\<forall>y. \<not> on_face c RIGHT y \<longrightarrow> elt S' y = elt S y)"
    proof (rule guarded_ok [OF sh])
      assume "nb RIGHT \<noteq> None"
      then show "\<exists>S'. face_block (for_loop [1..<unat (c Y - 1)] (\<lambda>j.
                  for_loop [1..<unat (c Z - 1)] (\<lambda>k. face_right D T0 (rb RIGHT) (c X - 1) j k))) S = Some S'
            \<and> shape c S' \<and> (\<forall>y. \<not> on_face c RIGHT y \<longrightarrow> elt S' y = elt S y)"
        using face_right_ok [OF n shT0 sh, of "rb RIGHT" D] halo [of RIGHT] by simp
    qed
    then show ?thesis unfolding 2 by (simp add: face_steps_def)
  next
    case 3
    have "\<exists>S'. guarded (nb BOTTOM \<noteq> None) (face_block (for_loop [1..<unat (c X - 1)] (\<lambda>i.
                  for_loop [1..<unat (c Z - 1)] (\<lambda>k. face_bottom D T0 (rb BOTTOM) i 0 k)))) S = Some S'
            \<and> shape c S' \<and> (\<forall>y. \<not> on_face c BOTTOM y \<longrightarrow> elt S' y = elt S y)"
    proof (rule guarded_ok [OF sh])
      assume "nb BOTTOM \<noteq> None"
      then show "\<exists>S'. face_block (for_loop [1..<unat (c X - 1)] (\<lambda>i.
                  for_loop [1..<unat (c Z - 1)] (\<lambda>k. face_bottom D T0 (rb BOTTOM) i 0 k))) S = Some S'
            \<and> shape c S' \<and> (\<forall>y. \<not> on_face c BOTTOM y \<longrightarrow> elt S' y = elt S y)"
        using face_bottom_ok [OF n shT0 sh, of "rb BOTTOM" D] halo [of BOTTOM] by simp
    qed
    then show ?thesis unfolding 3 by (simp add: face_steps_def)
  next
    case 4
    have "\<exists>S'. guarded (nb TOP \<noteq> None) (face_block (for_loop [1..<unat (c X - 1)] (\<lambda>i.
                  for_loop [1..<unat (c Z - 1)] (\<lambda>k. face_top D T0 (rb TOP) i (c Y - 1) k)))) S = Some S'
            \<and> shape c S' \<and> (\<forall>y. \<not> on_face c TOP y \<longrightarrow> elt S' y = elt S y)"
    proof (rule guarded_ok [OF sh])
      assume "nb TOP \<noteq> None"
      then show "\<exists>S'. face_block (for_loop [1..<unat (c X - 1)] (\<lambda>i.
                  for_loop [1..<unat (c Z - 1)] (\<lambda>k. face_top D T0 (rb TOP) i (c Y - 1) k))) S = Some S'
            \<and> shape c S' \<and> (\<forall>y. \<not> on_face c TOP y \<longrightarrow> elt S' y = elt S y)"
        using face_top_ok [OF n shT0 sh, of "rb TOP" D] halo [of TOP] by simp
    qed
    then show ?thesis unfolding 4 by (simp add: face_steps_def)
  next
    case 5
    have "\<exists>S'. guarded (nb BACK \<noteq> None) (face_block (for_loop [1..<unat (c X - 1)] (\<lambda>i.
                  for_loop [1..<unat (c Y - 1)] (\<lambda>j. face_back D T0 (rb BACK) i j 0)))) S = Some S'
            \<and> shape c S' \<and> (\<forall>y. \<not> on_face c BACK y \<longrightarrow> elt S' y = elt S y)"
    proof (rule guarded_ok [OF sh])
      assume "nb BACK \<noteq> None"
      then show "\<exists>S'. face_block (for_loop [1..<unat (c X - 1)] (\<lambda>i.
                  for_loop [1..<unat (c Y - 1)] (\<lambda>j. face_back D T0 (rb BACK) i j 0))) S = Some S'
            \<and> shape c S' \<and> (\<forall>y. \<not> on_face c BACK y \<longrightarrow> elt S' y = elt S y)"
        using face_back_ok [OF n shT0 sh, of "rb BACK" D] halo [of BACK] by simp
    qed
    then show ?thesis unfolding 5 by (simp add: face_steps_def)
  next
    case 6
    have "\<exists>S'. guarded (nb FRONT \<noteq> None) (face_block (for_loop [1..<unat (c X - 1)] (\<lambda>i.
                  for_loop [1..<unat (c Y - 1)] (\<lambda>j. face_front D T0 (rb FRONT) i j (c Z - 1))))) S = Some S'
            \<and> shape c S' \<and> (\<forall>y. \<not> on_face c FRONT y \<longrightarrow> elt S' y = elt S y)"
    proof (rule guarded_ok [OF sh])
      assume "nb FRONT \<noteq> None"
      then show "\<exists>S'. face_block (for_loop [1..<unat (c X - 1)] (\<lambda>i.
                  for_loop [1..<unat (c Y - 1)] (\<lambda>j. face_front D T0 (rb FRONT) i j (c Z - 1)))) S = Some S'
            \<and> shape c S' \<and> (\<forall>y. \<not> on_face c FRONT y \<longrightarrow> elt S' y = elt S y)"
        using face_front_ok [OF n shT0 sh, of "rb FRONT" D] halo [of FRONT] by simp
    qed
    then show ?thesis unfolding 6 by (simp add: face_steps_def)
  qed
qed

lemma on_face_some: "on_face c d x \<Longrightarrow> on_some_face c x"
  by (cases d) (simp_all add: on_some_face_def)

lemma lies_on_some: "lies_on c (d # ds) x \<Longrightarrow> on_some_face c x"
  by (cases d) (auto simp: lies_on_def on_some_face_def)

lemma boundary_steps_ok:
  assumes n: "3 \<le> unat (c X)" "3 \<le> unat (c Y)" "3 \<le> unat (c Z)"
    and shT0: "shape c T0" and sh: "shape c S"
    and halo: "\<And>d. nb d \<noteq> None \<Longrightarrow>
                 (unat (c (fst (transverse d))) - 2) * (unat (c (snd (transverse d))) - 2) \<le> length (rb d)"
    and m: "m < length (boundary_steps nb c D T0 rb)"
  shows "\<exists>S'. (boundary_steps nb c D T0 rb ! m) S = Some S' \<and> shape c S'
            \<and> (\<forall>y. \<not> on_some_face c y \<longrightarrow> elt S' y = elt S y)"
proof -
  have len: "length (boundary_steps nb c D T0 rb) = 26"
    by (simp add: boundary_steps_def length_steps)
  consider "m < 6" | k where "k < 12" "m = 6 + k" | k where "k < 8" "m = 18 + k"
  proof -
    have "m < 6 \<or> (m - 6 < 12 \<and> m = 6 + (m - 6)) \<or> (m - 18 < 8 \<and> m = 18 + (m - 18))"
      using m len by linarith
    then show ?thesis using that by blast
  qed
  then show ?thesis
  proof cases
    case 1
    have "\<exists>S'. (face_steps nb c D T0 rb ! m) S = Some S' \<and> shape c S'
            \<and> (\<forall>y. \<not> on_face c ([LEFT, RIGHT, BOTTOM, TOP, BACK, FRONT] ! m) y \<longrightarrow> elt S' y = elt S y)"
      by (rule face_steps_ok [OF n shT0 sh _ 1]) (rule halo)
    then show ?thesis unfolding boundary_steps_nth(1) [OF 1] using on_face_some [of c] by blast
  next
    case 2
    from edge_steps_ok [OF n sh 2(1), of nb]
    show ?thesis unfolding 2(2) boundary_steps_nth(2) [OF 2(1)] using lies_on_some [of c] by blast
  next
    case 3
    from corner_steps_ok [OF n sh 3(1), of nb]
    show ?thesis unfolding 3(2) boundary_steps_nth(3) [OF 3(1)] using lies_on_some [of c] by blast
  qed
qed

lemma run_steps_ok:
  assumes "\<And>m S. m < length fs \<Longrightarrow> shape c S
             \<Longrightarrow> \<exists>S'. (fs ! m) S = Some S' \<and> shape c S' \<and> (\<forall>y. \<not> W y \<longrightarrow> elt S' y = elt S y)"
    and "shape c S"
  shows "\<exists>S'. run_steps fs S = Some S' \<and> shape c S' \<and> (\<forall>y. \<not> W y \<longrightarrow> elt S' y = elt S y)"
  using assms
proof (induction fs arbitrary: S)
  case Nil
  then show ?case by (simp add: run_steps_def)
next
  case (Cons f fs)
  from Cons.prems(1) [of 0 S] Cons.prems(2)
  obtain S1 where S1: "f S = Some S1" "shape c S1" "\<And>y. \<not> W y \<Longrightarrow> elt S1 y = elt S y" by auto
  have "\<exists>S'. run_steps fs S1 = Some S' \<and> shape c S' \<and> (\<forall>y. \<not> W y \<longrightarrow> elt S' y = elt S1 y)"
  proof (rule Cons.IH)
    fix m S2 assume "m < length fs" "shape c S2"
    then show "\<exists>S'. (fs ! m) S2 = Some S' \<and> shape c S' \<and> (\<forall>y. \<not> W y \<longrightarrow> elt S' y = elt S2 y)"
      using Cons.prems(1) [of "Suc m" S2] by simp
  qed (rule S1(2))
  then show ?case using S1 by (auto simp: run_steps_def)
qed


section \<open>One pass and the whole time loop\<close>

lemma field_eqI:
  assumes a: "shape c A" and b: "shape c B"
    and e: "\<And>i j k. i < unat (c X) \<Longrightarrow> j < unat (c Y) \<Longrightarrow> k < unat (c Z) \<Longrightarrow> elt A (i, j, k) = elt B (i, j, k)"
  shows "A = B"
proof (rule nth_equalityI)
  show "length A = length B" using a b by (simp add: shape_def)
next
  fix i assume i: "i < length A"
  then have ix: "i < unat (c X)" using a by (simp add: shape_def)
  show "A ! i = B ! i"
  proof (rule nth_equalityI)
    show "length (A ! i) = length (B ! i)" using a b ix by (simp add: shape_def list_all_length)
  next
    fix j assume "j < length (A ! i)"
    then have jy: "j < unat (c Y)" using a ix by (simp add: shape_def list_all_length)
    show "A ! i ! j = B ! i ! j"
    proof (rule nth_equalityI)
      show "length (A ! i ! j) = length (B ! i ! j)" using a b ix jy by (simp add: shape_def list_all_length)
    next
      fix k assume "k < length (A ! i ! j)"
      then have "k < unat (c Z)" using a ix jy by (simp add: shape_def list_all_length)
      from e [OF ix jy this] show "A ! i ! j ! k = B ! i ! j ! k" by (simp add: elt_def)
    qed
  qed
qed

lemma copy_previous_spec:
  assumes sT: "shape c T" and sT0: "shape c T0"
  shows "copy_previous c T T0 = Some T"
proof -
  let ?cells = "List.product [0..<unat (c X)] (List.product [0..<unat (c Y)] [0..<unat (c Z)])"
  have "\<exists>R. for_loop ?cells (\<lambda>p T0. do { v \<leftarrow> rd T (fst p, fst (snd p), snd (snd p));
                                           wr T0 (fst p, fst (snd p), snd (snd p)) v }) T0 = Some R
            \<and> shape c R
            \<and> (\<forall>x\<in>set ?cells. elt R ((\<lambda>x. x) x) = elt T x)
            \<and> (\<forall>y. y \<notin> (\<lambda>x. x) ` set ?cells \<longrightarrow> elt R y = elt T0 y)"
  proof (rule assign_loop [OF sT0])
    show "distinct (map (\<lambda>x. x) ?cells)" by (simp add: distinct_product)
  next
    fix x S assume x: "x \<in> set ?cells" and S: "shape c S"
    obtain i j k where ijk: "x = (i, j, k)" by (cases x)
    with x have b: "i < unat (c X)" "j < unat (c Y)" "k < unat (c Z)" by simp_all
    show "inside S x \<and> (do { v \<leftarrow> rd T (fst x, fst (snd x), snd (snd x));
                                wr S (fst x, fst (snd x), snd (snd x)) v }) = Some (put S x (elt T x))"
      using b by (simp add: ijk rd_def wr_def shape_inside [OF sT] shape_inside [OF S])
  qed
  then obtain R where R: "copy_previous c T T0 = Some R" "shape c R"
    "\<And>x. x \<in> set ?cells \<Longrightarrow> elt R x = elt T x"
    by (auto simp: copy_previous_def for_loop_nested3)
  have "R = T"
    by (rule field_eqI [OF R(2) sT]) (simp add: R(3))
  then show ?thesis using R(1) by simp
qed

lemma buffers_ok_iff: "buffers_ok nb c bufs \<longleftrightarrow> (\<forall>d. length (bufs d) = buffer_size nb c d)"
proof
  assume a: "buffers_ok nb c bufs"
  show "\<forall>d. length (bufs d) = buffer_size nb c d"
  proof
    fix d show "length (bufs d) = buffer_size nb c d"
      using a by (cases d) (simp_all add: buffers_ok_def)
  qed
next
  assume "\<forall>d. length (bufs d) = buffer_size nb c d"
  then show "buffers_ok nb c bufs" by (simp add: buffers_ok_def)
qed

lemma sizes_ok_transverse:
  assumes "sizes_ok c"
  shows "(unat (c (fst (transverse d))) - 1) * (unat (c (snd (transverse d))) - 1) < 2 ^ 32"
  using assms by (cases d) (simp_all add: sizes_ok_def)

lemma pack_ok:
  assumes sh: "shape c T0" and ok: "sizes_ok c" and len: "length b = buffer_size nb c d"
  shows "\<exists>b'. pack nb c T0 d b \<noteq> None \<and> fst (the (pack nb c T0 d b)) = b' \<and> length b' = length b"
proof (cases "nb d = None")
  case True
  then show ?thesis by (cases d) simp_all
next
  case False
  have n2: "2 \<le> unat (c X)" "2 \<le> unat (c Y)" "2 \<le> unat (c Z)" using ok by (simp_all add: sizes_ok_def)
  have n1: "1 \<le> unat (c (fst (transverse d)))" "1 \<le> unat (c (snd (transverse d)))"
    using transverse_ge [of 1 c d] n2 by simp_all
  have fits: "length (packed c T0 d) \<le> length b"
    using packed_fits [of nb d c T0] False n1 sizes_ok_transverse [OF ok, of d] len by simp
  have "pack nb c T0 d b = Some (packed c T0 d @ drop (length (packed c T0 d)) b, length (packed c T0 d))"
    by (rule pack_spec [OF sh n2 False len sizes_ok_transverse [OF ok]])
  then show ?thesis using fits by simp
qed

lemma pack_all_ok:
  assumes sh: "shape c T0" and ok: "sizes_ok c" and bufs: "buffers_ok nb c sb"
  shows "\<exists>sb'. pack_all nb c T0 sb = Some sb' \<and> buffers_ok nb c sb'"
proof -
  have len: "length (sb d) = buffer_size nb c d" for d using bufs by (simp add: buffers_ok_iff)
  have p: "pack nb c T0 d (sb d) \<noteq> None" "length (fst (the (pack nb c T0 d (sb d)))) = buffer_size nb c d" for d
    using pack_ok [OF sh ok len [of d]] len [of d] by auto
  show ?thesis
    by (simp add: pack_all_def p buffers_ok_iff)
qed

lemma halo_fits:
  assumes ok: "sizes_ok c" and rb: "buffers_ok nb c rb" and d: "nb d \<noteq> None"
  shows "(unat (c (fst (transverse d))) - 2) * (unat (c (snd (transverse d))) - 2) \<le> length (rb d)"
proof -
  have n1: "1 \<le> unat (c X)" "1 \<le> unat (c Y)" "1 \<le> unat (c Z)" using ok by (simp_all add: sizes_ok_def)
  have "length (packed c T0 d) \<le> buffer_size nb c d" for T0
    using packed_fits [of nb d c T0] d transverse_ge [of 1 c d] n1 sizes_ok_transverse [OF ok, of d] by simp
  then show ?thesis using rb by (simp add: packed_length buffers_ok_iff)
qed

lemma iteration_ok:
  assumes ok: "sizes_ok c" and sT: "shape c (fieldT s)" and sT0: "shape c (fieldT0 s)"
    and sb: "buffers_ok nb c (sendBuffers s)" and rb: "buffers_ok nb c rb"
  shows "\<exists>s' res. iteration nb c D rb s = Some (s', res)
            \<and> shape c (fieldT s') \<and> shape c (fieldT0 s') \<and> buffers_ok nb c (sendBuffers s')
            \<and> fieldT0 s' = fieldT s
            \<and> (\<forall>y. \<not> on_some_face c y \<longrightarrow> elt (fieldT s') y = elt (fieldT s) y)"
proof -
  have n: "3 \<le> unat (c X)" "3 \<le> unat (c Y)" "3 \<le> unat (c Z)" using ok by (simp_all add: sizes_ok_def)
  have n1: "1 \<le> unat (c X)" "1 \<le> unat (c Y)" "1 \<le> unat (c Z)" using n by simp_all
  have cp: "copy_previous c (fieldT s) (fieldT0 s) = Some (fieldT s)"
    by (rule copy_previous_spec [OF sT sT0])
  obtain sb' where pk: "pack_all nb c (fieldT s) (sendBuffers s) = Some sb'" "buffers_ok nb c sb'"
    using pack_all_ok [OF sT ok sb] by blast
  have "\<exists>S'. run_steps (boundary_steps nb c D (fieldT s) rb) (fieldT s) = Some S' \<and> shape c S'
            \<and> (\<forall>y. \<not> on_some_face c y \<longrightarrow> elt S' y = elt (fieldT s) y)"
  proof (rule run_steps_ok [OF _ sT])
    fix m S assume m: "m < length (boundary_steps nb c D (fieldT s) rb)" and S: "shape c S"
    show "\<exists>S'. (boundary_steps nb c D (fieldT s) rb ! m) S = Some S' \<and> shape c S'
            \<and> (\<forall>y. \<not> on_some_face c y \<longrightarrow> elt S' y = elt S y)"
      by (rule boundary_steps_ok [OF n sT S _ m]) (rule halo_fits [OF ok rb])
  qed
  then obtain T' where T': "run_steps (boundary_steps nb c D (fieldT s) rb) (fieldT s) = Some T'" "shape c T'"
    "\<forall>y. \<not> on_some_face c y \<longrightarrow> elt T' y = elt (fieldT s) y"
    by blast
  have rs: "residual c T' (fieldT s) = Some (max_change T' (fieldT s) (interior_cells c) DBL_MIN)"
    by (rule residual_spec [OF T'(2) sT n1])
  show ?thesis
    using T'(2,3) sT pk(2) by (simp add: iteration_def cp pk(1) T'(1) rs)
qed

lemma iterations_ok:
  assumes ok: "sizes_ok c" and sT: "shape c (fieldT s)" and sT0: "shape c (fieldT0 s)"
    and sb: "buffers_ok nb c (sendBuffers s)" and rb: "\<And>t. buffers_ok nb c (rb t)"
  shows "\<exists>s'. iterations nb c D rb n s = Some s'
            \<and> shape c (fieldT s') \<and> shape c (fieldT0 s') \<and> buffers_ok nb c (sendBuffers s')
            \<and> (\<forall>y. \<not> on_some_face c y \<longrightarrow> elt (fieldT s') y = elt (fieldT s) y)"
proof (induction n)
  case 0
  then show ?case using sT sT0 sb by simp
next
  case (Suc n)
  then obtain s1 where s1: "iterations nb c D rb n s = Some s1" "shape c (fieldT s1)" "shape c (fieldT0 s1)"
    "buffers_ok nb c (sendBuffers s1)" "\<forall>y. \<not> on_some_face c y \<longrightarrow> elt (fieldT s1) y = elt (fieldT s) y"
    by blast
  have "buffers_ok nb c (rb n)" by (rule rb)
  from iteration_ok [OF ok s1(2,3,4) this, where D = D]
  obtain s2 res where s2: "iteration nb c D (rb n) s1 = Some (s2, res)" "shape c (fieldT s2)" "shape c (fieldT0 s2)"
    "buffers_ok nb c (sendBuffers s2)" "\<forall>y. \<not> on_some_face c y \<longrightarrow> elt (fieldT s2) y = elt (fieldT s1) y"
    by blast
  show ?case using s1(1,5) s2 by simp
qed

lemma buffers_ok_allocate: "buffers_ok nb c (allocate_buffers nb c)"
  by (simp add: buffers_ok_def allocate_buffers_def)

lemma interior_not_on_face:
  assumes "x \<in> set (interior_cells c)" shows "\<not> on_some_face c x"
proof -
  obtain i j k where x: "x = (i, j, k)" by (cases x)
  show ?thesis using assms unfolding x interior_cells_iff by (auto simp: on_some_face_def)
qed

lemma start_block_ok:
  assumes ok: "sizes_ok c"
  shows "\<exists>s. start_block nb coords c sp = Some s \<and> shape c (fieldT s) \<and> shape c (fieldT0 s)
            \<and> buffers_ok nb c (sendBuffers s)
            \<and> (\<forall>x\<in>set (interior_cells c). elt (fieldT s) x = 0)"
proof -
  have n1: "1 \<le> unat (c X)" "1 \<le> unat (c Y)" "1 \<le> unat (c Z)" using ok by (simp_all add: sizes_ok_def)
  from initial_conditions_spec [OF shape_allocate n1, of nb coords sp]
  obtain T where T: "initial_conditions nb coords c sp (allocate c) = Some T" "shape c T"
    "\<And>i j k. i < unat (c X) \<Longrightarrow> j < unat (c Y) \<Longrightarrow> k < unat (c Z) \<Longrightarrow> elt T (i, j, k) =
        (if (nb FRONT = None \<and> k = unat (c Z) - 1) \<or> (nb BACK = None \<and> k = 0)
            \<or> (nb RIGHT = None \<and> i = unat (c X) - 1) \<or> (nb LEFT = None \<and> i = 0)
         then ramp coords c sp j
         else if nb TOP = None \<and> j = unat (c Y) - 1 then 1 else 0)"
    by blast
  have "elt T x = 0" if "x \<in> set (interior_cells c)" for x
  proof -
    obtain i j k where x: "x = (i, j, k)" by (cases x)
    from that have b: "1 \<le> i" "i + 2 \<le> unat (c X)" "1 \<le> j" "j + 2 \<le> unat (c Y)" "1 \<le> k" "k + 2 \<le> unat (c Z)"
      unfolding x interior_cells_iff by simp_all
    then have "i < unat (c X)" "j < unat (c Y)" "k < unat (c Z)"
      "k \<noteq> unat (c Z) - 1" "k \<noteq> 0" "i \<noteq> unat (c X) - 1" "i \<noteq> 0" "j \<noteq> unat (c Y) - 1"
      by arith+
    then show ?thesis unfolding x using T(3) [of i j k] by simp
  qed
  then show ?thesis
    using T(1,2) by (simp add: start_block_def shape_allocate buffers_ok_allocate)
qed

text \<open>
  C9. No strictly interior cell is written inside the time loop. For a block of at
  least 3 cells per axis whose buffer sizes fit \<open>unsigned\<close>, and receive buffers of the
  allocated sizes in every pass: the state before the loop exists, any number \<open>n\<close> of
  passes returns, every cell with all three indices in \<open>[1, chunck - 2]\<close> still holds
  its value from the initialisation, which is 0, and every cell whose value differs
  from the one before the loop lies on one of the six face planes of the block.
\<close>

theorem C9_interior_never_written:
  assumes "sizes_ok chunck" and "\<forall>t. buffers_ok neighbors chunck (receiveBuffer t)"
  shows "\<exists>s s'. start_block neighbors coordinates3D chunck spacing = Some s
            \<and> iterations neighbors chunck D receiveBuffer n s = Some s'
            \<and> (\<forall>x\<in>set (interior_cells chunck). elt (fieldT s') x = elt (fieldT s) x \<and> elt (fieldT s) x = 0)
            \<and> (\<forall>y. on_some_face chunck y \<or> elt (fieldT s') y = elt (fieldT s) y)"
proof -
  from start_block_ok [OF assms(1), of neighbors coordinates3D spacing]
  obtain s where s: "start_block neighbors coordinates3D chunck spacing = Some s"
    "shape chunck (fieldT s)" "shape chunck (fieldT0 s)" "buffers_ok neighbors chunck (sendBuffers s)"
    "\<forall>x\<in>set (interior_cells chunck). elt (fieldT s) x = 0"
    by blast
  have rb: "buffers_ok neighbors chunck (receiveBuffer t)" for t using assms(2) by simp
  from iterations_ok [where rb = receiveBuffer and D = D and n = n, OF assms(1) s(2,3,4) rb]
  obtain s' where s': "iterations neighbors chunck D receiveBuffer n s = Some s'"
    "\<forall>y. \<not> on_some_face chunck y \<longrightarrow> elt (fieldT s') y = elt (fieldT s) y"
    by blast
  show ?thesis using s(1,5) s' interior_not_on_face [of _ chunck] by blast
qed

lemma sizes_ok_cells3: "sizes_ok cells3"
  by (simp add: sizes_ok_def)

lemma interior_cells3: "interior_cells cells3 = [(1, 1, 1)]"
  by (simp add: interior_cells_def upt_rec)

theorem C9_interior_never_written_witness:
  "sizes_ok cells3 \<and> buffers_ok alone cells3 (allocate_buffers alone cells3)
   \<and> (\<exists>s s'. start_block alone origin cells3 (spacing_of cells3) = Some s
          \<and> iterations alone cells3 (D_of (spacing_of cells3)) (\<lambda>t. allocate_buffers alone cells3) 5 s = Some s'
          \<and> elt (fieldT s') (1, 1, 1) = 0)"
  using C9_interior_never_written [of cells3 alone "\<lambda>t. allocate_buffers alone cells3" origin "spacing_of cells3"
      "D_of (spacing_of cells3)" 5]
  by (simp add: sizes_ok_cells3 buffers_ok_allocate interior_cells3) metis

lemma D_cells3: "D_of (spacing_of cells3) d = 1 / 15"
  by (simp add: D_of_def dt_of_def spacing_of_def CFL_def alpha_def power2_eq_square)

lemma start_block_cells3:
  "\<exists>s. start_block alone origin cells3 (spacing_of cells3) = Some s
       \<and> shape cells3 (fieldT s) \<and> shape cells3 (fieldT0 s) \<and> buffers_ok alone cells3 (sendBuffers s)
       \<and> elt (fieldT s) (1, 1, 1) = 0
       \<and> elt (fieldT s) (0, 1, 1) = 1 / 2 \<and> elt (fieldT s) (2, 1, 1) = 1 / 2
       \<and> elt (fieldT s) (1, 0, 1) = 0 \<and> elt (fieldT s) (1, 2, 1) = 1
       \<and> elt (fieldT s) (1, 1, 0) = 1 / 2 \<and> elt (fieldT s) (1, 1, 2) = 1 / 2"
proof -
  have n1: "1 \<le> unat (cells3 X)" "1 \<le> unat (cells3 Y)" "1 \<le> unat (cells3 Z)" by simp_all
  from initial_conditions_spec [OF shape_allocate n1, of alone origin "spacing_of cells3"]
  obtain T where T: "initial_conditions alone origin cells3 (spacing_of cells3) (allocate cells3) = Some T"
    "shape cells3 T"
    "\<And>i j k. i < 3 \<Longrightarrow> j < 3 \<Longrightarrow> k < 3 \<Longrightarrow> elt T (i, j, k) =
        (if k = 2 \<or> k = 0 \<or> i = 2 \<or> i = 0 then real (j mod 2 ^ 32) / 2
         else if j = 2 then 1 else 0)"
    by (auto simp: alone_def ramp_origin)
  have "elt T (1, 1, 1) = 0" "elt T (0, 1, 1) = 1 / 2" "elt T (2, 1, 1) = 1 / 2"
    "elt T (1, 0, 1) = 0" "elt T (1, 2, 1) = 1" "elt T (1, 1, 0) = 1 / 2" "elt T (1, 1, 2) = 1 / 2"
    using T(3) [of 1 1 1] T(3) [of 0 1 1] T(3) [of 2 1 1] T(3) [of 1 0 1] T(3) [of 1 2 1]
      T(3) [of 1 1 0] T(3) [of 1 1 2] by simp_all
  then show ?thesis
    using T(1,2) by (simp add: start_block_def shape_allocate buffers_ok_allocate)
qed

text \<open>
  C1. On one process with a 3 by 3 by 3 grid the only strictly interior cell is
  (1, 1, 1). After the first pass of the time loop it holds 0, its value before the
  pass: the region of lines 606-614 is empty and no other statement writes an interior
  cell. The update of the claim, evaluated on the copy \<open>T0\<close> of that pass with
  \<open>Dx = Dy = Dz = 1 / 15\<close>, gives \<open>1 / 5\<close>.
\<close>

theorem C1_interior_cell_not_updated:
  "new_value first_pass (1, 1, 1) = Some 0
   \<and> claimed_value (D_of (spacing_of cells3)) first_pass (1, 1, 1) = Some (1 / 5)"
proof -
  obtain s where s: "start_block alone origin cells3 (spacing_of cells3) = Some s"
    "shape cells3 (fieldT s)" "shape cells3 (fieldT0 s)" "buffers_ok alone cells3 (sendBuffers s)"
    "elt (fieldT s) (1, 1, 1) = 0"
    "elt (fieldT s) (0, 1, 1) = 1 / 2" "elt (fieldT s) (2, 1, 1) = 1 / 2"
    "elt (fieldT s) (1, 0, 1) = 0" "elt (fieldT s) (1, 2, 1) = 1"
    "elt (fieldT s) (1, 1, 0) = 1 / 2" "elt (fieldT s) (1, 1, 2) = 1 / 2"
    using start_block_cells3 by blast
  from iteration_ok [OF sizes_ok_cells3 s(2,3,4) buffers_ok_allocate, of "D_of (spacing_of cells3)"]
  obtain s' res where s': "iteration alone cells3 (D_of (spacing_of cells3)) (allocate_buffers alone cells3) s = Some (s', res)"
    "fieldT0 s' = fieldT s"
    "\<forall>y. \<not> on_some_face cells3 y \<longrightarrow> elt (fieldT s') y = elt (fieldT s) y"
    by blast
  have "\<not> on_some_face cells3 (1, 1, 1)" by (simp add: on_some_face_def)
  then have a: "elt (fieldT s') (1, 1, 1) = 0" using s'(3) s(5) by simp
  have fp: "first_pass = Some (s', res)" by (simp add: first_pass_def s(1) s'(1))
  have e: "stencil_at D T0 (1, 1, 1) =
      elt T0 (1, 1, 1)
      + D X * (elt T0 (2, 1, 1) - 2 * elt T0 (1, 1, 1) + elt T0 (0, 1, 1))
      + D Y * (elt T0 (1, 2, 1) - 2 * elt T0 (1, 1, 1) + elt T0 (1, 0, 1))
      + D Z * (elt T0 (1, 1, 2) - 2 * elt T0 (1, 1, 1) + elt T0 (1, 1, 0))" for D T0
    by (simp add: stencil_at_def numeral_2_eq_2)
  have b: "stencil_at (D_of (spacing_of cells3)) (fieldT s) (1, 1, 1) = 1 / 5"
    unfolding e s(5-11) D_cells3 by simp
  show ?thesis unfolding fp new_value_def claimed_value_def option.case prod.case s'(2) a b by simp
qed

section \<open>The stages of one pass\<close>






lemma unat_thin [simp]: "unat (thin X) = 2" "unat (thin Y) = 2" "unat (thin Z) = 3"
  by (simp_all add: thin_def)

lemma thin_less [simp]: "unat (thin X - 1) = 1" "unat (thin Y - 1) = 1" "unat (thin Z - 1) = 2"
  "unat (thin X - 2) = 0" "unat (thin X - 3) = 4294967295"
  by (simp_all add: thin_def unsigned_minus_1_eq_mask mask_eq_exp_minus_1)







section \<open>Passes that stay inside their vectors\<close>





















section \<open>The time loop of all processes\<close>





























end
